theory Spec2Isabelle
  imports Main "HOL-Library.Word"
begin

unbundle bit_operations_syntax

section \<open>The read path of the in-memory column store\<close>

text \<open>
  The development embeds \<^verbatim>\<open>be/src/olap/memory/typed_column_reader.h\<close> and
  \<^verbatim>\<open>be/src/olap/memory/column_block.h\<close>. Memory is modelled at the level of bytes,
  because the code views one buffer through several element types (\<^verbatim>\<open>as<ST>()\<close>,
  \<^verbatim>\<open>as<T>()\<close>, \<^verbatim>\<open>as<bool>()\<close>) and sizes it with \<^verbatim>\<open>sizeof(T)\<close> and
  \<^verbatim>\<open>sizeof(ST)\<close>.
\<close>

subsection \<open>Outcomes\<close>

text \<open>
  A call either returns, or it does not: \<^verbatim>\<open>CHECK(false)\<close> aborts the process,
  a failed \<^verbatim>\<open>DCHECK\<close> aborts a debug build (the model checks every \<^verbatim>\<open>DCHECK\<close>;
  a release build skips it and runs into the access it guards), and an access outside a
  buffer, through a null pointer or outside a vector is undefined in C++. The three are
  the faults of the model; a function that can fault returns \<open>fault + 'a\<close>.
\<close>

datatype fault = CHECK_failed | DCHECK_failed | Undefined_access

text \<open>The \<^verbatim>\<open>Status\<close> values a call can return.\<close>

datatype Status = OK | MemoryAllocFailed | InvalidArgument

subsection \<open>Buffer\<close>

type_synonym byte = "8 word"

text \<open>
  Modelled from the spec: \<^verbatim>\<open>Buffer\<close> (\<^verbatim>\<open>olap/memory/buffer.h\<close> is absent). A buffer
  is a byte region that may be absent, which is not the same as empty; its truth value
  says whether it is present; \<^verbatim>\<open>as<X>()\<close> views the same bytes as elements of
  \<^verbatim>\<open>sizeof(X)\<close> bytes each.
\<close>

type_synonym Buffer = "byte list option"

text \<open>
  Modelled from the spec: the truth value of a \<^verbatim>\<open>Buffer\<close> (\<^verbatim>\<open>if (buffer)\<close>): whether
  the buffer is present.
\<close>

definition present :: "Buffer \<Rightarrow> bool" where
  "present buf = (buf \<noteq> None)"

text \<open>Modelled from the spec: \<^verbatim>\<open>Buffer::bsize()\<close>, the byte size of the region.\<close>

definition bsize :: "Buffer \<Rightarrow> nat" where
  "bsize buf = (case buf of None \<Rightarrow> 0 | Some bs \<Rightarrow> length bs)"

text \<open>
  Modelled from the spec: \<^verbatim>\<open>Buffer::as<X>()\<close>, read at an index:
  \<^verbatim>\<open>buf.as<X>()[i]\<close> is the element of \<open>esize = sizeof(X)\<close> bytes at byte offset
  \<open>i * esize\<close>; outside the region the access is undefined.
\<close>

definition as_get :: "nat \<Rightarrow> Buffer \<Rightarrow> nat \<Rightarrow> fault + byte list" where
  "as_get esize buf i =
     (case buf of
        None \<Rightarrow> Inl Undefined_access
      | Some bs \<Rightarrow>
          if (i + 1) * esize \<le> length bs then Inr (take esize (drop (i * esize) bs))
          else Inl Undefined_access)"

text \<open>
  Modelled from the spec: \<^verbatim>\<open>Buffer::as<X>()\<close>, written at an index:
  \<^verbatim>\<open>buf.as<X>()[i] = v\<close>.
\<close>

definition as_set :: "nat \<Rightarrow> Buffer \<Rightarrow> nat \<Rightarrow> byte list \<Rightarrow> fault + Buffer" where
  "as_set esize buf i v =
     (case buf of
        None \<Rightarrow> Inl Undefined_access
      | Some bs \<Rightarrow>
          if (i + 1) * esize \<le> length bs \<and> length v = esize
          then Inr (Some (take (i * esize) bs @ v @ drop ((i + 1) * esize) bs))
          else Inl Undefined_access)"

text \<open>
  Modelled from the spec: \<^verbatim>\<open>Buffer::as<bool>()\<close>, read at an index: one byte a flag,
  zero for false.
\<close>

definition as_bool :: "Buffer \<Rightarrow> nat \<Rightarrow> fault + bool" where
  "as_bool buf i =
     (case buf of
        None \<Rightarrow> Inl Undefined_access
      | Some bs \<Rightarrow> if i < length bs then Inr (bs ! i \<noteq> 0) else Inl Undefined_access)"

text \<open>
  Modelled from the spec: \<^verbatim>\<open>Buffer::as<bool>()\<close>, written at an index:
  \<^verbatim>\<open>buf.as<bool>()[i] = b\<close>.
\<close>

definition set_bool :: "Buffer \<Rightarrow> nat \<Rightarrow> bool \<Rightarrow> fault + Buffer" where
  "set_bool buf i b =
     (case buf of
        None \<Rightarrow> Inl Undefined_access
      | Some bs \<Rightarrow>
          if i < length bs then Inr (Some (bs[i := (if b then 1 else 0)]))
          else Inl Undefined_access)"

subsection \<open>ColumnBlock\<close>

record ColumnBlock =
  cb_size :: nat
  cb_nulls :: Buffer
  cb_data :: Buffer

text \<open>\<^verbatim>\<open>new ColumnBlock()\<close>: \<^verbatim>\<open>_size = 0\<close>, both buffers absent.\<close>

definition new_ColumnBlock :: ColumnBlock where
  "new_ColumnBlock = \<lparr>cb_size = 0, cb_nulls = None, cb_data = None\<rparr>"

text \<open>\<^verbatim>\<open>is_null(idx) = _nulls && _nulls.as<bool>()[idx]\<close>.\<close>

definition is_null :: "ColumnBlock \<Rightarrow> nat \<Rightarrow> fault + bool" where
  "is_null cb idx =
     (if present (cb_nulls cb) then as_bool (cb_nulls cb) idx else Inr False)"

text \<open>
  Modelled from the spec: \<^verbatim>\<open>ColumnBlock::alloc\<close> (declared in the header, its body is
  absent). It allocates the data region for \<open>sz\<close> elements of \<open>esize\<close> bytes and a
  matching null bitmap, and fails with an allocation error if the memory cannot be
  obtained; \<open>obtainable n\<close> says whether the allocator can hand out \<open>n\<close> bytes. The
  fresh regions are zeroed.
\<close>

definition alloc :: "(nat \<Rightarrow> bool) \<Rightarrow> ColumnBlock \<Rightarrow> nat \<Rightarrow> nat \<Rightarrow> Status \<times> ColumnBlock" where
  "alloc obtainable cb sz esize =
     (if obtainable (sz * esize + sz)
      then (OK, \<lparr>cb_size = sz, cb_nulls = Some (replicate sz 0),
                 cb_data = Some (replicate (sz * esize) 0)\<rparr>)
      else (MemoryAllocFailed, cb))"

text \<open>
  Modelled from the spec: \<^verbatim>\<open>ColumnBlock::copy_to\<close> (called by \<^verbatim>\<open>get_block\<close>, absent
  from the header). It copies the first \<open>sz\<close> rows of the block into \<open>dest\<close>, byte for
  byte, \<open>esize\<close> bytes a row, and exactly the requested row count; the null flags of the
  rows go with them (all clear when the source has no null buffer). The call site checks
  its \<^verbatim>\<open>Status\<close> with \<^verbatim>\<open>RETURN_IF_ERROR\<close>: the status is an error when \<open>dest\<close> has a
  smaller row capacity than \<open>sz\<close>. A region that is shorter than the rows it should hold
  is an access outside the buffer.
\<close>

definition copy_to :: "ColumnBlock \<Rightarrow> ColumnBlock \<Rightarrow> nat \<Rightarrow> nat \<Rightarrow> fault + Status \<times> ColumnBlock" where
  "copy_to src dest sz esize =
     (if cb_size dest < sz then Inr (InvalidArgument, dest)
      else
        (case (cb_data src, cb_data dest, cb_nulls dest) of
           (Some sd, Some dd, Some dn) \<Rightarrow>
             if sz * esize \<le> length sd \<and> sz * esize \<le> length dd \<and> sz \<le> length dn
                \<and> (case cb_nulls src of None \<Rightarrow> True | Some sn \<Rightarrow> sz \<le> length sn)
             then Inr (OK, dest\<lparr>
                    cb_nulls := Some ((case cb_nulls src of
                                         None \<Rightarrow> replicate sz 0
                                       | Some sn \<Rightarrow> take sz sn) @ drop sz dn),
                    cb_data := Some (take (sz * esize) sd @ drop (sz * esize) dd)\<rparr>)
             else Inl Undefined_access
         | _ \<Rightarrow> Inl Undefined_access))"

subsection \<open>DeltaIndex and ColumnDelta\<close>

text \<open>
  Modelled from the spec: \<^verbatim>\<open>DeltaIndex\<close> (its header is absent): an ordered list of
  global row ids, sorted by row id so that the entries of one block form a contiguous
  sub-range; the place of an entry in the list is its position in the delta's parallel
  arrays.
\<close>

record DeltaIndex =
  entries :: "32 word list"

text \<open>
  Modelled from the spec: \<^verbatim>\<open>DeltaIndex::find_idx(rid)\<close> returns the position of
  \<open>rid\<close> in the index, or the sentinel \<^verbatim>\<open>npos\<close> (\<open>None\<close>) when the index does not
  contain it.
\<close>

primrec position_of :: "32 word list \<Rightarrow> 32 word \<Rightarrow> nat option" where
  "position_of [] rid = None"
| "position_of (r # rs) rid =
     (if r = rid then Some 0 else map_option Suc (position_of rs rid))"

definition find_idx :: "DeltaIndex \<Rightarrow> 32 word \<Rightarrow> nat option" where
  "find_idx ix rid = position_of (entries ix) rid"

text \<open>
  Modelled from the spec: \<^verbatim>\<open>DeltaIndex::block_range(block, &start, &end)\<close> returns the
  half-open range of positions whose row ids fall in that block: the entries of smaller
  blocks come first, then the run of entries of the block.
\<close>

definition block_range :: "DeltaIndex \<Rightarrow> nat \<Rightarrow> nat \<times> nat" where
  "block_range ix block =
     (let start = length (takeWhile (\<lambda>r. unat (drop_bit 16 r) < block) (entries ix));
          n = length (takeWhile (\<lambda>r. unat (drop_bit 16 r) = block) (drop start (entries ix)))
      in (start, start + n))"

text \<open>
  Modelled from the spec: \<^verbatim>\<open>DeltaIndex::data()\<close>, which \<^verbatim>\<open>get_block\<close> reads as an
  array of \<^verbatim>\<open>uint16_t\<close>: the in-block offset of each entry, the low half of its row
  id.
\<close>

definition index_data :: "DeltaIndex \<Rightarrow> 16 word list" where
  "index_data ix = map ucast (entries ix)"

text \<open>
  Modelled from the spec: the invariant of a \<^verbatim>\<open>DeltaIndex\<close>, sorted by row id; each row
  id has one entry.
\<close>

definition index_sorted :: "DeltaIndex \<Rightarrow> bool" where
  "index_sorted ix = sorted_wrt (<) (entries ix)"

text \<open>
  Modelled from the spec: \<^verbatim>\<open>ColumnDelta\<close> (its header is absent): a DeltaIndex, a data
  buffer and an optional null buffer, both parallel to the index. The code calls
  \<^verbatim>\<open>find_idx\<close> on the delta, which asks its index.
\<close>

record ColumnDelta =
  delta_index :: DeltaIndex
  delta_nulls :: Buffer
  delta_data :: Buffer

text \<open>
  Modelled from the spec: \<^verbatim>\<open>ColumnDelta::contains_block(block)\<close> is true iff the
  delta's range for that block is non-empty.
\<close>

definition contains_block :: "ColumnDelta \<Rightarrow> nat \<Rightarrow> bool" where
  "contains_block delta block =
     (case block_range (delta_index delta) block of (start, end') \<Rightarrow> start \<noteq> end')"

subsection \<open>The store of blocks, the reader, the template parameters\<close>

text \<open>
  \<^verbatim>\<open>ColumnBlock\<close> objects live in a store and are referred to by address, since the
  base vector, the holder and \<^verbatim>\<open>get_block\<close>'s local reference \<^verbatim>\<open>cb\<close> may name the
  same object. \<^verbatim>\<open>new\<close> takes the next address; \<^verbatim>\<open>delete\<close> empties the cell.
\<close>

type_synonym heap = "ColumnBlock option list"

definition deref :: "heap \<Rightarrow> nat \<Rightarrow> fault + ColumnBlock" where
  "deref h a =
     (if a < length h then (case h ! a of None \<Rightarrow> Inl Undefined_access | Some cb \<Rightarrow> Inr cb)
      else Inl Undefined_access)"

text \<open>
  The fields of \<^verbatim>\<open>TypedColumnReader\<close> that the operations read: \<^verbatim>\<open>_base\<close> (the
  addresses of the column's base blocks), \<^verbatim>\<open>_version\<close>, \<^verbatim>\<open>_real_version\<close> and
  \<^verbatim>\<open>_deltas\<close> (oldest first).
\<close>

record Reader =
  r_base :: "nat list"
  r_version :: nat
  r_real_version :: nat
  r_deltas :: "ColumnDelta list"

text \<open>
  The template parameters \<^verbatim>\<open><T, Nullable, ST>\<close> as the code uses them: the two element
  sizes, the nullable flag and \<^verbatim>\<open>std::is_same<T, ST>::value\<close>.
\<close>

record tparams =
  sizeof_T :: nat
  sizeof_ST :: nat
  Nullable :: bool
  is_same_T_ST :: bool

text \<open>
  The \<^verbatim>\<open>const void*\<close> that \<^verbatim>\<open>get\<close> returns: null, or an address inside the data
  buffer of the delta at an index of \<^verbatim>\<open>_deltas\<close>, or inside the data buffer of the
  block at a store address; the second component is the byte offset.
\<close>

datatype ptr = Nullptr | Delta_data nat nat | Block_data nat nat

subsection \<open>TypedColumnGet\<close>

text \<open>
  The loop \<^verbatim>\<open>for (ssize_t i = size - 1; i >= 0; i--)\<close>: the counter of the model is
  \<open>i + 1\<close>, and \<open>None\<close> means the loop ended without returning.
\<close>

text \<open>\<^verbatim>\<open>pdelta->nulls() && pdelta->nulls().as<bool>()[pos]\<close>.\<close>

definition delta_is_null :: "ColumnDelta \<Rightarrow> nat \<Rightarrow> fault + bool" where
  "delta_is_null delta pos =
     (if present (delta_nulls delta) then as_bool (delta_nulls delta) pos else Inr False)"

fun get_scan :: "tparams \<Rightarrow> ColumnDelta list \<Rightarrow> nat \<Rightarrow> 32 word \<Rightarrow> (fault + ptr) option" where
  "get_scan tp ds 0 rid = None"
| "get_scan tp ds (Suc i) rid =
     (case find_idx (delta_index (ds ! i)) rid of
        Some pos \<Rightarrow>
          Some (if Nullable tp then
                  (case delta_is_null (ds ! i) pos of
                     Inl e \<Rightarrow> Inl e
                   | Inr isnull \<Rightarrow>
                       if isnull then Inr Nullptr
                       else Inr (Delta_data i (pos * sizeof_ST tp)))
                else Inr (Delta_data i (pos * sizeof_ST tp)))
      | None \<Rightarrow> get_scan tp ds i rid)"

definition TypedColumnGet :: "tparams \<Rightarrow> heap \<Rightarrow> Reader \<Rightarrow> 32 word \<Rightarrow> fault + ptr" where
  "TypedColumnGet tp h reader rid =
     (case get_scan tp (r_deltas reader) (length (r_deltas reader)) rid of
        Some res \<Rightarrow> res
      | None \<Rightarrow>
          (let bid = unat (drop_bit 16 rid) in
           if \<not> bid < length (r_base reader) then Inl DCHECK_failed
           else
             (let idx = unat (rid AND 0xffff) in
              case deref h (r_base reader ! bid) of
                Inl e \<Rightarrow> Inl e
              | Inr page \<Rightarrow>
                  if \<not> idx * sizeof_ST tp < bsize (cb_data page) then Inl DCHECK_failed
                  else if Nullable tp then
                    (case is_null page idx of
                       Inl e \<Rightarrow> Inl e
                     | Inr isnull \<Rightarrow>
                         if isnull then Inr Nullptr
                         else Inr (Block_data (r_base reader ! bid) (idx * sizeof_ST tp)))
                  else Inr (Block_data (r_base reader ! bid) (idx * sizeof_ST tp)))))"

text \<open>Reading \<open>n\<close> bytes through a pointer that \<^verbatim>\<open>get\<close> returned.\<close>

definition bytes_at :: "Buffer \<Rightarrow> nat \<Rightarrow> nat \<Rightarrow> fault + byte list" where
  "bytes_at buf off n =
     (case buf of
        None \<Rightarrow> Inl Undefined_access
      | Some bs \<Rightarrow>
          if off + n \<le> length bs then Inr (take n (drop off bs)) else Inl Undefined_access)"

definition load :: "heap \<Rightarrow> Reader \<Rightarrow> ptr \<Rightarrow> nat \<Rightarrow> fault + byte list" where
  "load h reader p n =
     (case p of
        Nullptr \<Rightarrow> Inl Undefined_access
      | Delta_data i off \<Rightarrow>
          if i < length (r_deltas reader) then bytes_at (delta_data (r_deltas reader ! i)) off n
          else Inl Undefined_access
      | Block_data a off \<Rightarrow>
          (case deref h a of Inl e \<Rightarrow> Inl e | Inr cb \<Rightarrow> bytes_at (cb_data cb) off n))"

subsection \<open>TypedColumnHashcode\<close>

text \<open>
  \<^verbatim>\<open>HashUtil::fnv_hash64(data, bytes, hash)\<close> (\<^verbatim>\<open>util/hash_util.hpp\<close>, absent) is a
  parameter: a function of the bytes it is pointed at and of the seed.
\<close>

definition TypedColumnHashcode ::
  "(byte list \<Rightarrow> 64 word \<Rightarrow> 64 word) \<Rightarrow> tparams \<Rightarrow> Buffer \<Rightarrow> nat \<Rightarrow> fault + 64 word" where
  "TypedColumnHashcode fnv_hash64 tp rhs rhs_idx =
     (if is_same_T_ST tp then
        (case as_get (sizeof_T tp) rhs rhs_idx of
           Inl e \<Rightarrow> Inl e
         | Inr prhs \<Rightarrow> Inr (fnv_hash64 prhs 0))
      else Inr 0)"

subsection \<open>TypedColumnEquals\<close>

text \<open>
  \<open>eq_T\<close> is \<^verbatim>\<open>operator==\<close> of \<^verbatim>\<open>T\<close> on the representations of two values. \<open>rhs\<close> is
  the memory the caller's pointer refers to (\<open>None\<close> for a null pointer).
\<close>

fun equals_scan ::
  "tparams \<Rightarrow> (byte list \<Rightarrow> byte list \<Rightarrow> bool) \<Rightarrow> ColumnDelta list \<Rightarrow> nat \<Rightarrow> 32 word \<Rightarrow>
   Buffer \<Rightarrow> nat \<Rightarrow> (fault + bool) option" where
  "equals_scan tp eq_T ds 0 rid rhs rhs_idx = None"
| "equals_scan tp eq_T ds (Suc i) rid rhs rhs_idx =
     (case find_idx (delta_index (ds ! i)) rid of
        Some pos \<Rightarrow>
          Some (if Nullable tp then Inl CHECK_failed
                else
                  (case as_get (sizeof_T tp) (delta_data (ds ! i)) pos of
                     Inl e \<Rightarrow> Inl e
                   | Inr v \<Rightarrow>
                       (case as_get (sizeof_T tp) rhs rhs_idx of
                          Inl e \<Rightarrow> Inl e
                        | Inr rhs_value \<Rightarrow> Inr (eq_T v rhs_value))))
      | None \<Rightarrow> equals_scan tp eq_T ds i rid rhs rhs_idx)"

definition TypedColumnEquals ::
  "tparams \<Rightarrow> (byte list \<Rightarrow> byte list \<Rightarrow> bool) \<Rightarrow> heap \<Rightarrow> Reader \<Rightarrow> 32 word \<Rightarrow>
   Buffer \<Rightarrow> nat \<Rightarrow> fault + bool" where
  "TypedColumnEquals tp eq_T h reader rid rhs rhs_idx =
     (case equals_scan tp eq_T (r_deltas reader) (length (r_deltas reader)) rid rhs rhs_idx of
        Some res \<Rightarrow> res
      | None \<Rightarrow>
          (let bid = unat (drop_bit 16 rid) in
           if \<not> bid < length (r_base reader) then Inl DCHECK_failed
           else
             (let idx = unat (rid AND 0xffff) in
              case deref h (r_base reader ! bid) of
                Inl e \<Rightarrow> Inl e
              | Inr page \<Rightarrow>
                  if \<not> idx * sizeof_ST tp < bsize (cb_data page) then Inl DCHECK_failed
                  else if Nullable tp then Inl CHECK_failed
                  else if \<not> present rhs then Inl DCHECK_failed
                  else
                    (case as_get (sizeof_T tp) (cb_data page) idx of
                       Inl e \<Rightarrow> Inl e
                     | Inr v \<Rightarrow>
                         (case as_get (sizeof_T tp) rhs rhs_idx of
                            Inl e \<Rightarrow> Inl e
                          | Inr rhs_value \<Rightarrow> Inr (eq_T v rhs_value))))))"

subsection \<open>ColumnBlockHolder\<close>

text \<open>
  Modelled from the spec: \<^verbatim>\<open>ColumnBlockHolder\<close> (its header is absent): either a
  non-owning reference to an existing ColumnBlock or an owned ColumnBlock. \<^verbatim>\<open>get()\<close>
  and \<^verbatim>\<open>own()\<close> read the two fields.
\<close>

record ColumnBlockHolder =
  holder_cb :: "nat option"
  holder_own :: bool

text \<open>
  Modelled from the spec: \<^verbatim>\<open>ColumnBlockHolder::init(cb, own)\<close> sets the pointer and the
  ownership flag.
\<close>

definition init :: "ColumnBlockHolder \<Rightarrow> nat option \<Rightarrow> bool \<Rightarrow> ColumnBlockHolder" where
  "init cbh cb own = cbh\<lparr>holder_cb := cb, holder_own := own\<rparr>"

text \<open>
  Modelled from the spec: \<^verbatim>\<open>ColumnBlockHolder::release()\<close> destroys the block if the
  holder owns it, and leaves the holder empty.
\<close>

definition release :: "heap \<Rightarrow> ColumnBlockHolder \<Rightarrow> heap \<times> ColumnBlockHolder" where
  "release h cbh =
     ((case holder_cb cbh of
         Some a \<Rightarrow> if holder_own cbh then h[a := None] else h
       | None \<Rightarrow> h),
      cbh\<lparr>holder_cb := None, holder_own := False\<rparr>)"

subsection \<open>TypedColumnReader::get_block\<close>

text \<open>The first loop: \<^verbatim>\<open>base_only\<close> stays true iff no delta contains the block.\<close>

fun scan_base_only :: "ColumnDelta list \<Rightarrow> nat \<Rightarrow> bool" where
  "scan_base_only [] block = True"
| "scan_base_only (d # ds) block =
     (if contains_block d block then False else scan_base_only ds block)"

text \<open>A loop whose body may fault: it stops at the first fault.\<close>

primrec foldE :: "('a \<Rightarrow> 's \<Rightarrow> fault + 's) \<Rightarrow> 'a list \<Rightarrow> 's \<Rightarrow> fault + 's" where
  "foldE f [] s = Inr s"
| "foldE f (x # xs) s = (case f x s of Inl e \<Rightarrow> Inl e | Inr s' \<Rightarrow> foldE f xs s')"

text \<open>\<^verbatim>\<open>cb.nulls().as<bool>()[pos] = b\<close> and \<^verbatim>\<open>cb.data().as<ST>()[pos] = data[i]\<close>.\<close>

definition write_null :: "ColumnBlock \<Rightarrow> nat \<Rightarrow> bool \<Rightarrow> fault + ColumnBlock" where
  "write_null cb pos b =
     (case set_bool (cb_nulls cb) pos b of
        Inl e \<Rightarrow> Inl e
      | Inr buf \<Rightarrow> Inr (cb\<lparr>cb_nulls := buf\<rparr>))"

definition write_data :: "nat \<Rightarrow> ColumnBlock \<Rightarrow> nat \<Rightarrow> Buffer \<Rightarrow> nat \<Rightarrow> fault + ColumnBlock" where
  "write_data esize cb pos data i =
     (case as_get esize data i of
        Inl e \<Rightarrow> Inl e
      | Inr v \<Rightarrow>
          (case as_set esize (cb_data cb) pos v of
             Inl e \<Rightarrow> Inl e
           | Inr buf \<Rightarrow> Inr (cb\<lparr>cb_data := buf\<rparr>)))"

text \<open>
  The bodies of the three inner loops of \<^verbatim>\<open>get_block\<close>, at index \<open>i\<close> of the delta:
  nullable with a null buffer in the delta, nullable without one, and not nullable.
\<close>

definition patch_nullable :: "tparams \<Rightarrow> ColumnDelta \<Rightarrow> nat \<Rightarrow> ColumnBlock \<Rightarrow> fault + ColumnBlock" where
  "patch_nullable tp delta i cb =
     (let pos = unat (index_data (delta_index delta) ! i) in
      case as_bool (delta_nulls delta) i of
        Inl e \<Rightarrow> Inl e
      | Inr isnull \<Rightarrow>
          if isnull then write_null cb pos True
          else
            (case write_null cb pos False of
               Inl e \<Rightarrow> Inl e
             | Inr cb' \<Rightarrow> write_data (sizeof_ST tp) cb' pos (delta_data delta) i))"

definition patch_no_nulls :: "tparams \<Rightarrow> ColumnDelta \<Rightarrow> nat \<Rightarrow> ColumnBlock \<Rightarrow> fault + ColumnBlock" where
  "patch_no_nulls tp delta i cb =
     (let pos = unat (index_data (delta_index delta) ! i) in
      case write_null cb pos True of
        Inl e \<Rightarrow> Inl e
      | Inr cb' \<Rightarrow> write_data (sizeof_ST tp) cb' pos (delta_data delta) i)"

definition patch_plain :: "tparams \<Rightarrow> ColumnDelta \<Rightarrow> nat \<Rightarrow> ColumnBlock \<Rightarrow> fault + ColumnBlock" where
  "patch_plain tp delta i cb =
     write_data (sizeof_ST tp) cb (unat (index_data (delta_index delta) ! i)) (delta_data delta) i"

text \<open>The body of \<^verbatim>\<open>for (auto delta : _deltas)\<close>.\<close>

definition apply_delta :: "tparams \<Rightarrow> nat \<Rightarrow> ColumnDelta \<Rightarrow> ColumnBlock \<Rightarrow> fault + ColumnBlock" where
  "apply_delta tp block delta cb =
     (case block_range (delta_index delta) block of
        (start, end') \<Rightarrow>
          if end' = start then Inr cb
          else if Nullable tp then
            (if present (delta_nulls delta)
             then foldE (patch_nullable tp delta) [start..<end'] cb
             else foldE (patch_no_nulls tp delta) [start..<end'] cb)
          else foldE (patch_plain tp delta) [start..<end'] cb)"

text \<open>
  \<^verbatim>\<open>!cbh->own() || cbh->get()->size() < nrows\<close>: the second operand dereferences the
  holder's pointer.
\<close>

definition needs_new_block :: "heap \<Rightarrow> ColumnBlockHolder \<Rightarrow> nat \<Rightarrow> fault + bool" where
  "needs_new_block h cbh nrows =
     (if \<not> holder_own cbh then Inr True
      else
        (case holder_cb cbh of
           None \<Rightarrow> Inl Undefined_access
         | Some a \<Rightarrow>
             (case deref h a of Inl e \<Rightarrow> Inl e | Inr cb \<Rightarrow> Inr (cb_size cb < nrows))))"

text \<open>
  \<^verbatim>\<open>cbh->release(); cbh->init(new ColumnBlock(), true); cbh->get()->alloc(nrows, sizeof(T));\<close>
  The status that \<^verbatim>\<open>alloc\<close> returns is dropped, as in the source.
\<close>

definition fresh_block ::
  "tparams \<Rightarrow> (nat \<Rightarrow> bool) \<Rightarrow> nat \<Rightarrow> heap \<Rightarrow> ColumnBlockHolder \<Rightarrow> heap \<times> ColumnBlockHolder" where
  "fresh_block tp obtainable nrows h cbh =
     (case release h cbh of
        (h1, cbh1) \<Rightarrow>
          (let a = length h1;
               cbh2 = init cbh1 (Some a) True
           in (h1 @ [Some (snd (alloc obtainable new_ColumnBlock nrows (sizeof_T tp)))], cbh2)))"

text \<open>
  The part of \<^verbatim>\<open>get_block\<close> after the holder has its block: \<^verbatim>\<open>cb\<close> is the block at
  the holder's address \<open>a\<close>, \<^verbatim>\<open>page->copy_to(&cb, nrows, sizeof(ST))\<close> under
  \<^verbatim>\<open>RETURN_IF_ERROR\<close>, then the loop over the deltas, oldest first. All writes go to
  the object at \<open>a\<close>.
\<close>

definition patch_block ::
  "tparams \<Rightarrow> Reader \<Rightarrow> nat \<Rightarrow> nat \<Rightarrow> nat \<Rightarrow> heap \<Rightarrow> nat \<Rightarrow> fault + Status \<times> heap" where
  "patch_block tp reader nrows block page h a =
     (case deref h a of
        Inl e \<Rightarrow> Inl e
      | Inr cb \<Rightarrow>
          (case deref h page of
             Inl e \<Rightarrow> Inl e
           | Inr src \<Rightarrow>
               (case copy_to src cb nrows (sizeof_ST tp) of
                  Inl e \<Rightarrow> Inl e
                | Inr (st, cb1) \<Rightarrow>
                    if st \<noteq> OK then Inr (st, h[a := Some cb1])
                    else
                      (case foldE (apply_delta tp block) (r_deltas reader) cb1 of
                         Inl e \<Rightarrow> Inl e
                       | Inr cb2 \<Rightarrow> Inr (OK, h[a := Some cb2])))))"

definition get_block ::
  "tparams \<Rightarrow> (nat \<Rightarrow> bool) \<Rightarrow> Reader \<Rightarrow> nat \<Rightarrow> nat \<Rightarrow> heap \<Rightarrow> ColumnBlockHolder \<Rightarrow>
   fault + Status \<times> heap \<times> ColumnBlockHolder" where
  "get_block tp obtainable reader nrows block h cbh =
     (let base_only = scan_base_only (r_deltas reader) block in
      if \<not> block < length (r_base reader) then Inl Undefined_access
      else
        (let page = r_base reader ! block in
         if base_only then Inr (OK, h, init cbh (Some page) False)
         else
           (case needs_new_block h cbh nrows of
              Inl e \<Rightarrow> Inl e
            | Inr fresh \<Rightarrow>
                (case (if fresh then fresh_block tp obtainable nrows h cbh else (h, cbh)) of
                   (h1, cbh1) \<Rightarrow>
                     (case holder_cb cbh1 of
                        None \<Rightarrow> Inl Undefined_access
                      | Some a \<Rightarrow>
                          (case patch_block tp reader nrows block page h1 a of
                             Inl e \<Rightarrow> Inl e
                           | Inr (st, h2) \<Rightarrow> Inr (st, h2, cbh1)))))))"

subsection \<open>Predicates of the statements\<close>

text \<open>
  The delta at index \<open>k\<close> of the vector is the most recent one whose index contains
  \<open>rid\<close>, at position \<open>pos\<close>.
\<close>

definition newest_delta :: "ColumnDelta list \<Rightarrow> 32 word \<Rightarrow> nat \<Rightarrow> nat \<Rightarrow> bool" where
  "newest_delta ds rid k pos =
     (k < length ds \<and> find_idx (delta_index (ds ! k)) rid = Some pos \<and>
      list_all (\<lambda>d. find_idx (delta_index d) rid = None) (drop (Suc k) ds))"

text \<open>No delta of the vector contains \<open>rid\<close>.\<close>

definition no_delta :: "ColumnDelta list \<Rightarrow> 32 word \<Rightarrow> bool" where
  "no_delta ds rid = list_all (\<lambda>d. find_idx (delta_index d) rid = None) ds"

text \<open>
  The row id is valid in the base blocks: the two conditions that \<^verbatim>\<open>get\<close> and
  \<^verbatim>\<open>equals\<close> assert before they read the base block.
\<close>

definition base_row :: "tparams \<Rightarrow> heap \<Rightarrow> Reader \<Rightarrow> 32 word \<Rightarrow> ColumnBlock \<Rightarrow> bool" where
  "base_row tp h reader rid page =
     (unat (drop_bit 16 rid) < length (r_base reader) \<and>
      deref h (r_base reader ! unat (drop_bit 16 rid)) = Inr page \<and>
      unat (rid AND 0xffff) * sizeof_ST tp < bsize (cb_data page))"

text \<open>
  Row \<open>idx\<close> of a block holds the value that the delta stores at position \<open>pos\<close>.
\<close>

definition holds_value :: "tparams \<Rightarrow> ColumnDelta \<Rightarrow> nat \<Rightarrow> ColumnBlock \<Rightarrow> nat \<Rightarrow> bool" where
  "holds_value tp delta pos cb idx =
     (case as_get (sizeof_ST tp) (delta_data delta) pos of
        Inl e \<Rightarrow> False
      | Inr v \<Rightarrow> as_get (sizeof_ST tp) (cb_data cb) idx = Inr v)"

text \<open>
  Row \<open>idx\<close> of a block is as the loop of \<^verbatim>\<open>get_block\<close> leaves it when it applies
  position \<open>pos\<close> of a delta. On a column that is not nullable the row holds the delta's
  value. On a nullable column, a delta with a null buffer gives the row its null flag,
  and its value if the flag is clear; a delta without null buffer gives the row its value
  and the null flag that the loop writes in that branch, which is set.
\<close>

definition patched_by :: "tparams \<Rightarrow> ColumnDelta \<Rightarrow> nat \<Rightarrow> ColumnBlock \<Rightarrow> nat \<Rightarrow> bool" where
  "patched_by tp delta pos cb idx =
     (if Nullable tp then
        (if present (delta_nulls delta) then
           (case as_bool (delta_nulls delta) pos of
              Inl e \<Rightarrow> False
            | Inr isnull \<Rightarrow>
                is_null cb idx = Inr isnull \<and>
                (\<not> isnull \<longrightarrow> holds_value tp delta pos cb idx))
         else is_null cb idx = Inr True \<and> holds_value tp delta pos cb idx)
      else holds_value tp delta pos cb idx)"

subsection \<open>The scenario of the specification\<close>

text \<open>
  Base block 0 holds the four \<^verbatim>\<open>int32\<close> rows 10, 20, 30, 40 (little-endian) and no
  null buffer. Delta A (version 1) sets row 1 to 25 and has no null buffer; delta B
  (version 2) sets row 1 to null and row 3 to 99.
\<close>

definition int32_column :: tparams where
  "int32_column = \<lparr>sizeof_T = 4, sizeof_ST = 4, Nullable = False, is_same_T_ST = True\<rparr>"

definition int32_nullable_column :: tparams where
  "int32_nullable_column = \<lparr>sizeof_T = 4, sizeof_ST = 4, Nullable = True, is_same_T_ST = True\<rparr>"

definition base_block :: ColumnBlock where
  "base_block = \<lparr>cb_size = 4, cb_nulls = None,
     cb_data = Some [10, 0, 0, 0, 20, 0, 0, 0, 30, 0, 0, 0, 40, 0, 0, 0]\<rparr>"

definition delta_A :: ColumnDelta where
  "delta_A = \<lparr>delta_index = \<lparr>entries = [1]\<rparr>, delta_nulls = None,
     delta_data = Some [25, 0, 0, 0]\<rparr>"

definition delta_B :: ColumnDelta where
  "delta_B = \<lparr>delta_index = \<lparr>entries = [1, 3]\<rparr>, delta_nulls = Some [1, 0],
     delta_data = Some [0, 0, 0, 0, 99, 0, 0, 0]\<rparr>"

definition reader_v0 :: Reader where
  "reader_v0 = \<lparr>r_base = [0], r_version = 0, r_real_version = 0, r_deltas = []\<rparr>"

definition reader_v1 :: Reader where
  "reader_v1 = \<lparr>r_base = [0], r_version = 1, r_real_version = 1, r_deltas = [delta_A]\<rparr>"

definition reader_v2 :: Reader where
  "reader_v2 = \<lparr>r_base = [0], r_version = 2, r_real_version = 2, r_deltas = [delta_A, delta_B]\<rparr>"

definition empty_holder :: ColumnBlockHolder where
  "empty_holder = \<lparr>holder_cb = None, holder_own = False\<rparr>"

text \<open>
  The block that the reader of version 1 materializes for block 0 of a nullable column.
\<close>

definition patched_v1 :: ColumnBlock where
  "patched_v1 = \<lparr>cb_size = 4, cb_nulls = Some [0, 1, 0, 0],
     cb_data = Some [10, 0, 0, 0, 25, 0, 0, 0, 30, 0, 0, 0, 40, 0, 0, 0]\<rparr>"

text \<open>
  The block that the reader of version 2 materializes for block 0 of a nullable column.
\<close>

definition patched_v2 :: ColumnBlock where
  "patched_v2 = \<lparr>cb_size = 4, cb_nulls = Some [0, 1, 0, 0],
     cb_data = Some [10, 0, 0, 0, 25, 0, 0, 0, 30, 0, 0, 0, 99, 0, 0, 0]\<rparr>"

text \<open>
  Delta C sets row 1 to 26, not null, and has a null buffer. The two readers apply it
  before and after delta A.
\<close>

definition delta_C :: ColumnDelta where
  "delta_C = \<lparr>delta_index = \<lparr>entries = [1]\<rparr>, delta_nulls = Some [0],
     delta_data = Some [26, 0, 0, 0]\<rparr>"

definition reader_C_then_A :: Reader where
  "reader_C_then_A = \<lparr>r_base = [0], r_version = 2, r_real_version = 2,
     r_deltas = [delta_C, delta_A]\<rparr>"

definition reader_A_then_C :: Reader where
  "reader_A_then_C = \<lparr>r_base = [0], r_version = 2, r_real_version = 2,
     r_deltas = [delta_A, delta_C]\<rparr>"

text \<open>Block 0 of a column that is not nullable, with row 1 set to a value.\<close>

definition block_with_row1 :: "byte \<Rightarrow> ColumnBlock" where
  "block_with_row1 v = \<lparr>cb_size = 4, cb_nulls = Some [0, 0, 0, 0],
     cb_data = Some [10, 0, 0, 0, v, 0, 0, 0, 30, 0, 0, 0, 40, 0, 0, 0]\<rparr>"

text \<open>A column of two base blocks whose only delta touches block 0.\<close>

definition reader_two_blocks :: Reader where
  "reader_two_blocks = \<lparr>r_base = [0, 1], r_version = 1, r_real_version = 1, r_deltas = [delta_A]\<rparr>"

text \<open>An \<^verbatim>\<open>int64\<close> key column, and one whose storage type differs from its logical type.\<close>

definition int64_column :: tparams where
  "int64_column = \<lparr>sizeof_T = 8, sizeof_ST = 8, Nullable = False, is_same_T_ST = True\<rparr>"

definition int64_as_int32_column :: tparams where
  "int64_as_int32_column = \<lparr>sizeof_T = 8, sizeof_ST = 4, Nullable = False, is_same_T_ST = False\<rparr>"

text \<open>
  A function to stand for \<^verbatim>\<open>fnv_hash64\<close> in examples: one xor and one multiplication
  by the 64-bit FNV prime for each byte.
\<close>

definition xor_mult_hash :: "byte list \<Rightarrow> 64 word \<Rightarrow> 64 word" where
  "xor_mult_hash bs seed = fold (\<lambda>b hash. (ucast b XOR hash) * 1099511628211) bs seed"


text \<open>A block of an \<^verbatim>\<open>int64\<close> key column: six rows, the value 7 at row 5.\<close>

definition key_block :: ColumnBlock where
  "key_block = \<lparr>cb_size = 6, cb_nulls = None,
     cb_data = Some ([1, 0, 0, 0, 0, 0, 0, 0] @ [2, 0, 0, 0, 0, 0, 0, 0] @
                     [3, 0, 0, 0, 0, 0, 0, 0] @ [4, 0, 0, 0, 0, 0, 0, 0] @
                     [5, 0, 0, 0, 0, 0, 0, 0] @ [7, 0, 0, 0, 0, 0, 0, 0])\<rparr>"

text \<open>A reader of the key column whose one delta sets row 5 to 8.\<close>

definition key_delta :: ColumnDelta where
  "key_delta = \<lparr>delta_index = \<lparr>entries = [5]\<rparr>, delta_nulls = None,
     delta_data = Some [8, 0, 0, 0, 0, 0, 0, 0]\<rparr>"

definition key_reader :: Reader where
  "key_reader = \<lparr>r_base = [0], r_version = 1, r_real_version = 1, r_deltas = [key_delta]\<rparr>"

section \<open>Bulk materialization: the base-only path\<close>

lemma scan_base_only_iff:
  "scan_base_only ds block = (\<forall>d \<in> set ds. \<not> contains_block d block)"
  by (induction ds) auto

text \<open>
  C5. When no delta of the reader contains the block, \<^verbatim>\<open>get_block\<close> returns OK, the
  holder is a non-owning reference to the address of the existing base block, and the
  store is the one before the call: nothing was allocated and nothing copied.
\<close>

theorem get_block_base_only_shares:
  assumes "\<forall>d \<in> set (r_deltas reader). \<not> contains_block d block"
    and "block < length (r_base reader)"
  shows "get_block tp obtainable reader nrows block h cbh =
         Inr (OK, h, \<lparr>holder_cb = Some (r_base reader ! block), holder_own = False\<rparr>)"
  using assms by (simp add: get_block_def scan_base_only_iff init_def)

theorem get_block_base_only_shares_witness:
  "get_block int32_column (\<lambda>n. False) reader_two_blocks 4 1 [Some base_block, Some base_block]
     empty_holder =
   Inr (OK, [Some base_block, Some base_block], \<lparr>holder_cb = Some 1, holder_own = False\<rparr>)"
proof -
  have untouched: "\<forall>d \<in> set (r_deltas reader_two_blocks). \<not> contains_block d 1"
    by (simp add: reader_two_blocks_def delta_A_def contains_block_def block_range_def)
  have valid: "1 < length (r_base reader_two_blocks)"
    by (simp add: reader_two_blocks_def)
  show ?thesis
    using get_block_base_only_shares [OF untouched valid] by (simp add: reader_two_blocks_def)
qed

section \<open>Bulk materialization against the specification's scenario\<close>

text \<open>
  C2. On a nullable column, the reader of version 1 applies delta A, which has no null
  buffer and sets row 1. The claim says that row 1 is not null in the materialized
  block; the code sets the destination null flag of the row
  (\<^verbatim>\<open>cb.nulls().as<bool>()[pos] = true\<close> in the branch for a delta without null buffer)
  and copies the value 25 next to it.
\<close>

theorem get_block_delta_without_nulls_sets_flag:
  "get_block int32_nullable_column (\<lambda>n. True) reader_v1 4 0 [Some base_block] empty_holder =
     Inr (OK, [Some base_block, Some patched_v1], \<lparr>holder_cb = Some 1, holder_own = True\<rparr>) \<and>
   present (delta_nulls delta_A) = False \<and>
   cb_nulls patched_v1 = Some [0, 1, 0, 0] \<and>
   is_null patched_v1 1 = Inr True"
  by code_simp

text \<open>
  C1. The same reader, row 1: \<^verbatim>\<open>get\<close> returns a pointer to the value 25 in delta A
  (not null), while the block that \<^verbatim>\<open>get_block\<close> materializes reports the row as
  null. The two access paths differ in the null state of the row. (On the rows that this
  branch of \<^verbatim>\<open>get_block\<close> does not write they agree: see
  \<open>get_matches_get_block_on_delta_rows\<close> below.)
\<close>

theorem get_differs_from_get_block:
  "TypedColumnGet int32_nullable_column [Some base_block] reader_v1 1 = Inr (Delta_data 0 0) \<and>
   load [Some base_block] reader_v1 (Delta_data 0 0) 4 = Inr [25, 0, 0, 0] \<and>
   get_block int32_nullable_column (\<lambda>n. True) reader_v1 4 0 [Some base_block] empty_holder =
     Inr (OK, [Some base_block, Some patched_v1], \<lparr>holder_cb = Some 1, holder_own = True\<rparr>) \<and>
   deref [Some base_block, Some patched_v1] 1 = Inr patched_v1 \<and>
   is_null patched_v1 1 = Inr True \<and>
   as_get 4 (cb_data patched_v1) 1 = Inr [25, 0, 0, 0]"
  by code_simp

text \<open>
  C6. The allocator cannot hand out memory, and a delta touches the block, so
  \<^verbatim>\<open>get_block\<close> has to allocate a fresh owned block. The claim says that the call
  returns the allocation failure; the code drops the status of \<^verbatim>\<open>alloc\<close>, goes on to
  \<^verbatim>\<open>copy_to\<close> with the unallocated block, and returns what \<^verbatim>\<open>copy_to\<close> returns.
  The holder that the caller sees owns the unallocated block.
\<close>

theorem get_block_drops_alloc_status:
  "alloc (\<lambda>n. False) new_ColumnBlock 4 (sizeof_T int32_nullable_column) =
     (MemoryAllocFailed, new_ColumnBlock) \<and>
   get_block int32_nullable_column (\<lambda>n. False) reader_v1 4 0 [Some base_block] empty_holder =
     Inr (InvalidArgument, [Some base_block, Some new_ColumnBlock],
          \<lparr>holder_cb = Some 1, holder_own = True\<rparr>)"
proof -
  have "alloc (\<lambda>n. False) new_ColumnBlock 4 (sizeof_T int32_nullable_column) =
     (MemoryAllocFailed, new_ColumnBlock)"
    by (simp add: alloc_def)
  moreover have "get_block int32_nullable_column (\<lambda>n. False) reader_v1 4 0 [Some base_block]
      empty_holder =
     Inr (InvalidArgument, [Some base_block, Some new_ColumnBlock],
          \<lparr>holder_cb = Some 1, holder_own = True\<rparr>)"
    by code_simp
  ultimately show ?thesis by simp
qed

section \<open>Hashing\<close>

text \<open>
  C9. \<^verbatim>\<open>hashcode\<close> is a function of the bytes of the referenced value: when \<^verbatim>\<open>T\<close> and
  \<^verbatim>\<open>ST\<close> are the same type it is the fingerprint, seeded with 0, of the
  \<^verbatim>\<open>sizeof(T)\<close> bytes at \<^verbatim>\<open>rhs[rhs_idx]\<close>, so two calls that see the same bytes
  return the same value; when the types differ it is 0 whatever the input.
\<close>

theorem hashcode_of_bytes:
  "(is_same_T_ST tp \<longrightarrow> as_get (sizeof_T tp) rhs rhs_idx = Inr bs \<longrightarrow>
      TypedColumnHashcode fnv_hash64 tp rhs rhs_idx = Inr (fnv_hash64 bs 0) \<and>
      length bs = sizeof_T tp) \<and>
   (as_get (sizeof_T tp) rhs rhs_idx = as_get (sizeof_T tp) rhs' rhs_idx' \<longrightarrow>
      TypedColumnHashcode fnv_hash64 tp rhs rhs_idx =
      TypedColumnHashcode fnv_hash64 tp rhs' rhs_idx') \<and>
   (\<not> is_same_T_ST tp \<longrightarrow> TypedColumnHashcode fnv_hash64 tp rhs rhs_idx = Inr 0)"
  by (auto simp: TypedColumnHashcode_def as_get_def split: option.splits if_splits)

theorem hashcode_of_bytes_witness:
  "TypedColumnHashcode xor_mult_hash int64_column (Some [7, 0, 0, 0, 0, 0, 0, 0]) 0 =
     Inr (xor_mult_hash [7, 0, 0, 0, 0, 0, 0, 0] 0) \<and>
   TypedColumnHashcode xor_mult_hash int64_column (Some [7, 0, 0, 0, 0, 0, 0, 0]) 0 =
     TypedColumnHashcode xor_mult_hash int64_column
       (Some [9, 9, 9, 9, 9, 9, 9, 9, 7, 0, 0, 0, 0, 0, 0, 0]) 1 \<and>
   TypedColumnHashcode xor_mult_hash int64_as_int32_column (Some [7, 0, 0, 0, 0, 0, 0, 0]) 0 =
     Inr 0"
proof -
  have bytes: "as_get (sizeof_T int64_column) (Some [7, 0, 0, 0, 0, 0, 0, 0]) 0 =
      Inr [7, 0, 0, 0, 0, 0, 0, 0]"
    by (simp add: as_get_def int64_column_def)
  have same: "as_get (sizeof_T int64_column) (Some [7, 0, 0, 0, 0, 0, 0, 0]) 0 =
      as_get (sizeof_T int64_column) (Some [9, 9, 9, 9, 9, 9, 9, 9, 7, 0, 0, 0, 0, 0, 0, 0]) 1"
    by (simp add: as_get_def int64_column_def)
  have typed: "is_same_T_ST int64_column" "\<not> is_same_T_ST int64_as_int32_column"
    by (simp_all add: int64_column_def int64_as_int32_column_def)
  show ?thesis
    using hashcode_of_bytes [of int64_column "Some [7, 0, 0, 0, 0, 0, 0, 0]" 0
        "[7, 0, 0, 0, 0, 0, 0, 0]" xor_mult_hash
        "Some [9, 9, 9, 9, 9, 9, 9, 9, 7, 0, 0, 0, 0, 0, 0, 0]" 1]
      hashcode_of_bytes [of int64_as_int32_column "Some [7, 0, 0, 0, 0, 0, 0, 0]" 0
        "[7, 0, 0, 0, 0, 0, 0, 0]" xor_mult_hash "Some [7, 0, 0, 0, 0, 0, 0, 0]" 0]
      bytes same typed
    by blast
qed

section \<open>Point lookup\<close>

lemma list_all_drop_nth:
  "list_all P (drop n xs) = (\<forall>j. n \<le> j \<and> j < length xs \<longrightarrow> P (xs ! j))"
proof -
  have "list_all P (drop n xs) = (\<forall>i < length xs - n. P (xs ! (n + i)))"
    by (simp add: list_all_length)
  also have "\<dots> = (\<forall>j. n \<le> j \<and> j < length xs \<longrightarrow> P (xs ! j))"
  proof (intro iffI allI impI)
    fix j assume a: "\<forall>i < length xs - n. P (xs ! (n + i))" and j: "n \<le> j \<and> j < length xs"
    then have "j - n < length xs - n" by arith
    with a have "P (xs ! (n + (j - n)))" by blast
    with j show "P (xs ! j)" by simp
  next
    fix i assume a: "\<forall>j. n \<le> j \<and> j < length xs \<longrightarrow> P (xs ! j)" and i: "i < length xs - n"
    then show "P (xs ! (n + i))" by simp
  qed
  finally show ?thesis .
qed


lemma get_scan_hit:
  assumes "k < n" and "find_idx (delta_index (ds ! k)) rid = Some pos"
    and "\<forall>j. k < j \<and> j < n \<longrightarrow> find_idx (delta_index (ds ! j)) rid = None"
  shows "get_scan tp ds n rid =
         Some (if Nullable tp then
                 (case delta_is_null (ds ! k) pos of
                    Inl e \<Rightarrow> Inl e
                  | Inr isnull \<Rightarrow>
                      if isnull then Inr Nullptr else Inr (Delta_data k (pos * sizeof_ST tp)))
               else Inr (Delta_data k (pos * sizeof_ST tp)))"
  using assms
proof (induction n)
  case 0
  then show ?case by simp
next
  case (Suc n)
  show ?case
  proof (cases "k = n")
    case True
    with Suc.prems show ?thesis by (auto split: sum.splits)
  next
    case False
    with Suc.prems have "k < n" by simp
    moreover from Suc.prems \<open>k < n\<close> have "find_idx (delta_index (ds ! n)) rid = None" by simp
    ultimately show ?thesis using Suc by simp
  qed
qed

lemma as_get_bytes_at: "as_get esize buf i = bytes_at buf (i * esize) esize"
  by (simp add: as_get_def bytes_at_def split: option.splits)

lemma newest_deltaD:
  "newest_delta ds rid k pos \<Longrightarrow>
   k < length ds \<and> find_idx (delta_index (ds ! k)) rid = Some pos \<and>
   (\<forall>j. k < j \<and> j < length ds \<longrightarrow> find_idx (delta_index (ds ! j)) rid = None)"
  by (auto simp: newest_delta_def list_all_drop_nth)

lemma no_deltaD:
  "no_delta ds rid \<Longrightarrow> \<forall>j < length ds. find_idx (delta_index (ds ! j)) rid = None"
  by (simp add: no_delta_def list_all_length)

lemma get_newest:
  assumes "newest_delta (r_deltas reader) rid k pos"
  shows "TypedColumnGet tp h reader rid =
         (if Nullable tp then
            (case delta_is_null (r_deltas reader ! k) pos of
               Inl e \<Rightarrow> Inl e
             | Inr isnull \<Rightarrow>
                 if isnull then Inr Nullptr else Inr (Delta_data k (pos * sizeof_ST tp)))
          else Inr (Delta_data k (pos * sizeof_ST tp)))"
proof -
  from newest_deltaD [OF assms] show ?thesis
    unfolding TypedColumnGet_def
    by (subst get_scan_hit [where k = k and pos = pos]) simp_all
qed




section \<open>Equality on key columns\<close>

lemma equals_scan_None:
  "(equals_scan tp eq_T ds n rid rhs rhs_idx = None) =
   (\<forall>j < n. find_idx (delta_index (ds ! j)) rid = None)"
  by (induction n) (auto simp: less_Suc_eq split: option.splits)

lemma equals_scan_nullable:
  "Nullable tp \<Longrightarrow>
   equals_scan tp eq_T ds n rid rhs rhs_idx = None \<or>
   equals_scan tp eq_T ds n rid rhs rhs_idx = Some (Inl CHECK_failed)"
  by (induction n) (auto split: option.splits)

lemma equals_nullable_faults:
  assumes "Nullable tp"
  shows "\<exists>f. TypedColumnEquals tp eq_T h reader rid rhs rhs_idx = Inl f"
  using equals_scan_nullable [OF assms, of eq_T "r_deltas reader" "length (r_deltas reader)" rid rhs rhs_idx] assms
  by (auto simp: TypedColumnEquals_def Let_def split: sum.splits)

text \<open>
  C7. On a nullable column \<^verbatim>\<open>equals\<close> never returns: every call ends in a fault, and
  whenever the row is resolved, by a delta or by the base block, the fault is the failed
  \<^verbatim>\<open>CHECK(false)\<close>.
\<close>

theorem equals_nullable_is_fatal:
  assumes "Nullable tp"
  shows "(\<exists>f. TypedColumnEquals tp eq_T h reader rid rhs rhs_idx = Inl f) \<and>
         (newest_delta (r_deltas reader) rid k pos \<or>
          no_delta (r_deltas reader) rid \<and> base_row tp h reader rid page \<longrightarrow>
          TypedColumnEquals tp eq_T h reader rid rhs rhs_idx = Inl CHECK_failed)"
proof (intro conjI impI)
  from equals_nullable_faults [OF assms]
  show "\<exists>f. TypedColumnEquals tp eq_T h reader rid rhs rhs_idx = Inl f" .
next
  assume "newest_delta (r_deltas reader) rid k pos \<or>
          no_delta (r_deltas reader) rid \<and> base_row tp h reader rid page"
  then show "TypedColumnEquals tp eq_T h reader rid rhs rhs_idx = Inl CHECK_failed"
  proof
    assume "newest_delta (r_deltas reader) rid k pos"
    then have "\<not> (\<forall>j < length (r_deltas reader). find_idx (delta_index (r_deltas reader ! j)) rid = None)"
      by (auto simp: newest_delta_def)
    then have "equals_scan tp eq_T (r_deltas reader) (length (r_deltas reader)) rid rhs rhs_idx \<noteq> None"
      using equals_scan_None [of tp eq_T "r_deltas reader" "length (r_deltas reader)" rid rhs rhs_idx]
      by blast
    with equals_scan_nullable [OF assms, of eq_T "r_deltas reader" "length (r_deltas reader)" rid rhs rhs_idx]
    show ?thesis by (simp add: TypedColumnEquals_def)
  next
    assume a: "no_delta (r_deltas reader) rid \<and> base_row tp h reader rid page"
    then have "equals_scan tp eq_T (r_deltas reader) (length (r_deltas reader)) rid rhs rhs_idx = None"
      by (simp add: equals_scan_None no_deltaD)
    with a assms show ?thesis
      by (simp add: TypedColumnEquals_def base_row_def Let_def)
  qed
qed

theorem equals_nullable_is_fatal_witness:
  "TypedColumnEquals int32_nullable_column (=) [Some base_block] reader_v2 1
     (Some [25, 0, 0, 0]) 0 = Inl CHECK_failed \<and>
   TypedColumnEquals int32_nullable_column (=) [Some base_block] reader_v2 0
     (Some [10, 0, 0, 0]) 0 = Inl CHECK_failed"
proof -
  have tp: "Nullable int32_nullable_column"
    by (simp add: int32_nullable_column_def)
  have hit: "newest_delta (r_deltas reader_v2) 1 1 0"
    and base: "no_delta (r_deltas reader_v2) 0"
      "base_row int32_nullable_column [Some base_block] reader_v2 0 base_block"
    by code_simp+
  from equals_nullable_is_fatal [OF tp, where reader = reader_v2 and rid = 1 and k = 1
      and pos = 0] hit
  have "TypedColumnEquals int32_nullable_column (=) [Some base_block] reader_v2 1
     (Some [25, 0, 0, 0]) 0 = Inl CHECK_failed"
    by blast
  moreover from equals_nullable_is_fatal [OF tp, where reader = reader_v2 and rid = 0
      and page = base_block and h = "[Some base_block]"] base
  have "TypedColumnEquals int32_nullable_column (=) [Some base_block] reader_v2 0
     (Some [10, 0, 0, 0]) 0 = Inl CHECK_failed"
    by blast
  ultimately show ?thesis by simp
qed

lemma equals_scan_get_scan:
  assumes "\<not> Nullable tp" and "sizeof_T tp = sizeof_ST tp" and "n \<le> length (r_deltas reader)"
  shows "equals_scan tp eq_T (r_deltas reader) n rid rhs rhs_idx =
         map_option
           (\<lambda>res. case res of
                     Inl e \<Rightarrow> Inl e
                   | Inr p \<Rightarrow>
                       (case load h reader p (sizeof_T tp) of
                          Inl e \<Rightarrow> Inl e
                        | Inr v \<Rightarrow>
                            (case as_get (sizeof_T tp) rhs rhs_idx of
                               Inl e \<Rightarrow> Inl e
                             | Inr w \<Rightarrow> Inr (eq_T v w))))
           (get_scan tp (r_deltas reader) n rid)"
  using assms
  by (induction n) (auto simp: load_def as_get_bytes_at split: option.splits sum.splits)

text \<open>
  Where the logical type \<^verbatim>\<open>T\<close> has the size of the storage type \<^verbatim>\<open>ST\<close> (as when
  \<^verbatim>\<open>ST\<close> is \<^verbatim>\<open>T\<close>, the default), \<^verbatim>\<open>equals\<close> on a column that is not nullable
  returns \<open>b\<close> exactly when \<^verbatim>\<open>get(rid)\<close> returns a pointer, the value behind it and
  \<^verbatim>\<open>rhs[rhs_idx]\<close> can be read, and \<open>b\<close> is their typed equality.
\<close>

lemma equals_agrees_with_get:
  assumes "\<not> Nullable tp" and "sizeof_T tp = sizeof_ST tp"
  shows "(TypedColumnEquals tp eq_T h reader rid rhs rhs_idx = Inr b) =
         (\<exists>p v w. TypedColumnGet tp h reader rid = Inr p \<and>
                  load h reader p (sizeof_T tp) = Inr v \<and>
                  as_get (sizeof_T tp) rhs rhs_idx = Inr w \<and> b = eq_T v w)"
proof (cases "get_scan tp (r_deltas reader) (length (r_deltas reader)) rid")
  case None
  with equals_scan_get_scan [OF assms, of "length (r_deltas reader)" reader eq_T rid rhs rhs_idx h]
  have e: "equals_scan tp eq_T (r_deltas reader) (length (r_deltas reader)) rid rhs rhs_idx = None"
    by simp
  show ?thesis
    using assms
    by (auto simp: TypedColumnEquals_def TypedColumnGet_def e None Let_def load_def
        as_get_bytes_at present_def bytes_at_def split: sum.splits option.splits)
next
  case (Some res)
  with equals_scan_get_scan [OF assms, of "length (r_deltas reader)" reader eq_T rid rhs rhs_idx h]
  have e: "equals_scan tp eq_T (r_deltas reader) (length (r_deltas reader)) rid rhs rhs_idx =
      Some (case res of
                     Inl e \<Rightarrow> Inl e
                   | Inr p \<Rightarrow>
                       (case load h reader p (sizeof_T tp) of
                          Inl e \<Rightarrow> Inl e
                        | Inr v \<Rightarrow>
                            (case as_get (sizeof_T tp) rhs rhs_idx of
                               Inl e \<Rightarrow> Inl e
                             | Inr w \<Rightarrow> Inr (eq_T v w))))"
    by simp
  show ?thesis
    by (auto simp: TypedColumnEquals_def TypedColumnGet_def e Some split: sum.splits)
qed

lemma equals_agrees_with_get_example:
  "TypedColumnEquals int64_column (=) [Some key_block] reader_v0 5
     (Some [7, 0, 0, 0, 0, 0, 0, 0]) 0 = Inr True \<and>
   TypedColumnEquals int64_column (=) [Some key_block] key_reader 5
     (Some [7, 0, 0, 0, 0, 0, 0, 0]) 0 = Inr False \<and>
   TypedColumnEquals int64_column (=) [Some key_block] key_reader 5
     (Some [8, 0, 0, 0, 0, 0, 0, 0]) 0 = Inr True"
proof -
  have tp: "\<not> Nullable int64_column" "sizeof_T int64_column = sizeof_ST int64_column"
    by (simp_all add: int64_column_def)
  have base: "TypedColumnGet int64_column [Some key_block] reader_v0 5 = Inr (Block_data 0 40)"
    "load [Some key_block] reader_v0 (Block_data 0 40) (sizeof_T int64_column) =
        Inr [7, 0, 0, 0, 0, 0, 0, 0]"
    and delta: "TypedColumnGet int64_column [Some key_block] key_reader 5 = Inr (Delta_data 0 0)"
    "load [Some key_block] key_reader (Delta_data 0 0) (sizeof_T int64_column) =
        Inr [8, 0, 0, 0, 0, 0, 0, 0]"
    and rhs: "as_get (sizeof_T int64_column) (Some [7, 0, 0, 0, 0, 0, 0, 0]) 0 =
        Inr [7, 0, 0, 0, 0, 0, 0, 0]"
    "as_get (sizeof_T int64_column) (Some [8, 0, 0, 0, 0, 0, 0, 0]) 0 =
        Inr [8, 0, 0, 0, 0, 0, 0, 0]"
    by code_simp+
  have "TypedColumnEquals int64_column (=) [Some key_block] reader_v0 5
     (Some [7, 0, 0, 0, 0, 0, 0, 0]) 0 = Inr True"
    using equals_agrees_with_get [OF tp, where eq_T = "(=)" and h = "[Some key_block]"
        and reader = reader_v0 and rid = 5 and rhs = "Some [7, 0, 0, 0, 0, 0, 0, 0]"
        and rhs_idx = 0 and b = True] base rhs
    by simp
  moreover have "TypedColumnEquals int64_column (=) [Some key_block] key_reader 5
     (Some [7, 0, 0, 0, 0, 0, 0, 0]) 0 = Inr False"
    using equals_agrees_with_get [OF tp, where eq_T = "(=)" and h = "[Some key_block]"
        and reader = key_reader and rid = 5 and rhs = "Some [7, 0, 0, 0, 0, 0, 0, 0]"
        and rhs_idx = 0 and b = False] delta rhs
    by simp
  moreover have "TypedColumnEquals int64_column (=) [Some key_block] key_reader 5
     (Some [8, 0, 0, 0, 0, 0, 0, 0]) 0 = Inr True"
    using equals_agrees_with_get [OF tp, where eq_T = "(=)" and h = "[Some key_block]"
        and reader = key_reader and rid = 5 and rhs = "Some [8, 0, 0, 0, 0, 0, 0, 0]"
        and rhs_idx = 0 and b = True] delta rhs
    by simp
  ultimately show ?thesis by blast
qed


section \<open>Bulk materialization: patching the block\<close>

subsection \<open>Reading and writing elements of a buffer\<close>

lemma take_drop_take: "a + n \<le> b \<Longrightarrow> take n (drop a (take b xs)) = take n (drop a xs)"
  by (simp add: drop_take min_def)

lemma as_set_get_same:
  assumes "as_set esize buf q v = Inr buf'"
  shows "as_get esize buf' q = Inr v"
  using assms
  by (auto simp: as_set_def as_get_def split: option.splits if_splits)

lemma splice_read_before:
  assumes "a + n \<le> b" and "b \<le> length bs"
  shows "take n (drop a (take b bs @ rest)) = take n (drop a bs)"
proof -
  from assms have "take n (drop a (take b bs @ rest)) = take n (drop a (take b bs))"
    by simp
  also from assms(1) have "\<dots> = take n (drop a bs)"
    by (rule take_drop_take)
  finally show ?thesis .
qed

lemma splice_read_after:
  assumes "b + length v \<le> a" and "b + length v \<le> length bs"
  shows "drop a (take b bs @ v @ drop (b + length v) bs) = drop a bs"
proof -
  from assms have "length (take b bs) = b" by simp
  with assms have "drop a (take b bs @ v @ drop (b + length v) bs) =
      drop (a - b - length v) (drop (b + length v) bs)"
    by simp
  also from assms have "\<dots> = drop a bs" by simp
  finally show ?thesis .
qed

lemma as_set_get_other:
  assumes "as_set esize buf q v = Inr buf'" and "p \<noteq> q"
  shows "as_get esize buf' p = as_get esize buf p"
proof -
  from assms(1) obtain bs where buf: "buf = Some bs"
    and fit: "(q + 1) * esize \<le> length bs" and len: "length v = esize"
    and buf': "buf' = Some (take (q * esize) bs @ v @ drop ((q + 1) * esize) bs)"
    by (auto simp: as_set_def split: option.splits if_splits)
  have same_length: "length (take (q * esize) bs @ v @ drop ((q + 1) * esize) bs) = length bs"
    using fit len by simp
  have q1: "(q + 1) * esize = q * esize + length v" using len by simp
  consider "p < q" | "q < p" using assms(2) by arith
  then have "take esize (drop (p * esize) (take (q * esize) bs @ v @ drop ((q + 1) * esize) bs)) =
      take esize (drop (p * esize) bs)"
  proof cases
    case 1
    then have "Suc p \<le> q" by simp
    then have "Suc p * esize \<le> q * esize" by (rule mult_le_mono1)
    then have le: "p * esize + esize \<le> q * esize" by simp
    from fit q1 have "q * esize \<le> length bs" by linarith
    with le show ?thesis by (rule splice_read_before)
  next
    case 2
    then have "Suc q \<le> p" by simp
    then have "Suc q * esize \<le> p * esize" by (rule mult_le_mono1)
    then have le: "q * esize + length v \<le> p * esize" using len by simp
    from fit q1 have "q * esize + length v \<le> length bs" by linarith
    with le have "drop (p * esize) (take (q * esize) bs @ v @ drop (q * esize + length v) bs) =
        drop (p * esize) bs"
      by (rule splice_read_after)
    then show ?thesis by (simp only: q1)
  qed
  with buf buf' same_length show ?thesis
    by (simp add: as_get_def)
qed

lemma write_data_effect:
  assumes "write_data esize cb q data i = Inr cb'"
  shows "cb_nulls cb' = cb_nulls cb \<and>
         as_get esize (cb_data cb') p =
           (if p = q then as_get esize data i else as_get esize (cb_data cb) p)"
  using assms as_set_get_same as_set_get_other
  by (auto simp: write_data_def split: sum.splits)

subsection \<open>Row ids and the index\<close>

lemma unat_low_half: "unat (ucast (r :: 32 word) :: 16 word) = unat r mod 65536"
proof -
  have "unat (ucast r :: 16 word) = take_bit 16 (unat r)"
    by (simp add: unsigned_ucast_eq)
  then show ?thesis by (simp add: take_bit_eq_mod)
qed

lemma unat_and_ffff: "unat ((r :: 32 word) AND 0xffff) = unat r mod 65536"
proof -
  have "(0xffff :: 32 word) = mask 16" by (simp add: mask_eq_exp_minus_1)
  then have "r AND 0xffff = take_bit 16 r" by (simp only: take_bit_eq_mask)
  then have "unat (r AND 0xffff) = take_bit 16 (unat r)"
    by (simp only: unsigned_take_bit_eq)
  then show ?thesis by (simp add: take_bit_eq_mod)
qed

lemma unat_block: "unat (drop_bit 16 (r :: 32 word)) = unat r div 65536"
proof -
  have "unat (drop_bit 16 r) = drop_bit 16 (unat r)" by (rule unat_drop_bit_eq)
  also have "\<dots> = unat r div 2 ^ 16" by (rule drop_bit_eq_div)
  finally show ?thesis by simp
qed

lemma rid_eqI:
  fixes r1 r2 :: "32 word"
  assumes "unat (drop_bit 16 r1) = unat (drop_bit 16 r2)"
    and "unat (ucast r1 :: 16 word) = unat (r2 AND 0xffff)"
  shows "r1 = r2"
proof -
  from assms have "unat r1 div 65536 = unat r2 div 65536" "unat r1 mod 65536 = unat r2 mod 65536"
    by (simp_all add: unat_block unat_low_half unat_and_ffff)
  then have "unat r1 = unat r2"
    by (metis div_mult_mod_eq)
  then show ?thesis by (rule word_unat_eq_iff [THEN iffD2])
qed

lemma block_mono:
  fixes r1 r2 :: "32 word"
  assumes "r1 \<le> r2"
  shows "unat (drop_bit 16 r1) \<le> unat (drop_bit 16 r2)"
  using assms by (simp add: unat_block word_le_nat_alt div_le_mono)

lemma position_of_Some:
  "position_of rs rid = Some pos \<Longrightarrow> pos < length rs \<and> rs ! pos = rid"
  by (induction rs arbitrary: pos) (auto split: if_splits)

lemma position_of_None: "position_of rs rid = None \<Longrightarrow> rid \<notin> set rs"
  by (induction rs) (auto split: if_splits)

lemma block_range_inside:
  assumes "block_range ix block = (start, end')"
  shows "start \<le> end' \<and> end' \<le> length (entries ix) \<and>
         (\<forall>i. start \<le> i \<and> i < end' \<longrightarrow> unat (drop_bit 16 (entries ix ! i)) = block)"
proof -
  let ?P = "\<lambda>r :: 32 word. unat (drop_bit 16 r) < block"
  let ?Q = "\<lambda>r :: 32 word. unat (drop_bit 16 r) = block"
  let ?ys = "drop start (entries ix)"
  from assms have s: "start = length (takeWhile ?P (entries ix))"
    and e: "end' = start + length (takeWhile ?Q ?ys)"
    by (auto simp: block_range_def Let_def)
  have "start \<le> length (entries ix)" unfolding s by (rule length_takeWhile_le)
  moreover have "length (takeWhile ?Q ?ys) \<le> length ?ys" by (rule length_takeWhile_le)
  ultimately have bound: "end' \<le> length (entries ix)" using e by simp
  have "unat (drop_bit 16 (entries ix ! i)) = block" if "start \<le> i" "i < end'" for i
  proof -
    from that e have j: "i - start < length (takeWhile ?Q ?ys)" by simp
    then have "takeWhile ?Q ?ys ! (i - start) \<in> set (takeWhile ?Q ?ys)" by (rule nth_mem)
    then have "?Q (takeWhile ?Q ?ys ! (i - start))" by (rule set_takeWhileD [THEN conjunct2])
    moreover from j have "takeWhile ?Q ?ys ! (i - start) = ?ys ! (i - start)"
      by (rule takeWhile_nth)
    moreover from that bound have "?ys ! (i - start) = entries ix ! i" by simp
    ultimately show ?thesis by simp
  qed
  with e bound show ?thesis by simp
qed

lemma block_range_covers:
  assumes range: "block_range ix block = (start, end')"
    and sorted: "index_sorted ix"
    and i: "i < length (entries ix)"
    and blk: "unat (drop_bit 16 (entries ix ! i)) = block"
  shows "start \<le> i \<and> i < end'"
proof -
  let ?es = "entries ix"
  let ?P = "\<lambda>r :: 32 word. unat (drop_bit 16 r) < block"
  let ?Q = "\<lambda>r :: 32 word. unat (drop_bit 16 r) = block"
  let ?ys = "drop start ?es"
  from range have s: "start = length (takeWhile ?P ?es)"
    and e: "end' = start + length (takeWhile ?Q ?ys)"
    by (auto simp: block_range_def Let_def)
  have mono: "unat (drop_bit 16 (?es ! a)) \<le> unat (drop_bit 16 (?es ! b))"
    if "a \<le> b" "b < length ?es" for a b
  proof (cases "a = b")
    case True
    then show ?thesis by simp
  next
    case False
    with that have "a < b" by simp
    with sorted that have "?es ! a < ?es ! b"
      by (simp add: index_sorted_def sorted_wrt_nth_less)
    then show ?thesis by (intro block_mono) simp
  qed
  have lower: "start \<le> i"
  proof (rule ccontr)
    assume "\<not> start \<le> i"
    then have "i < length (takeWhile ?P ?es)" using s by simp
    then have "?P (takeWhile ?P ?es ! i)" "takeWhile ?P ?es ! i = ?es ! i"
      by (auto dest: nth_mem set_takeWhileD intro: takeWhile_nth)
    with blk show False by simp
  qed
  have upper: "i < end'"
  proof (rule ccontr)
    assume "\<not> i < end'"
    then have ei: "end' \<le> i" by simp
    with e i lower have short: "length (takeWhile ?Q ?ys) < length ?ys" by simp
    then have "\<not> ?Q (?ys ! length (takeWhile ?Q ?ys))" by (rule nth_length_takeWhile)
    moreover from e ei i have "?ys ! length (takeWhile ?Q ?ys) = ?es ! end'" by simp
    ultimately have ne: "unat (drop_bit 16 (?es ! end')) \<noteq> block" by simp
    from ei i have up: "unat (drop_bit 16 (?es ! end')) \<le> block"
      using mono [of end' i] blk by simp
    from lower i have "length (takeWhile ?P ?es) < length ?es" using s by simp
    then have "\<not> ?P (?es ! length (takeWhile ?P ?es))" by (rule nth_length_takeWhile)
    then have "block \<le> unat (drop_bit 16 (?es ! start))" using s by simp
    moreover from e ei i have "unat (drop_bit 16 (?es ! start)) \<le> unat (drop_bit 16 (?es ! end'))"
      by (intro mono) simp_all
    ultimately show False using ne up by simp
  qed
  from lower upper show ?thesis ..
qed

subsection \<open>Loops\<close>

lemma foldE_append:
  "foldE f (xs @ ys) s = (case foldE f xs s of Inl e \<Rightarrow> Inl e | Inr t \<Rightarrow> foldE f ys t)"
  by (induction xs arbitrary: s) (auto split: sum.splits)

lemma foldE_invariant:
  assumes "foldE f xs s = Inr s'"
    and "\<forall>x \<in> set xs. \<forall>t t'. f x t = Inr t' \<longrightarrow> obs t' = obs t"
  shows "obs s' = obs s"
  using assms
proof (induction xs arbitrary: s)
  case Nil
  then show ?case by simp
next
  case (Cons x xs)
  from Cons.prems(1) obtain t where t: "f x s = Inr t" and rest: "foldE f xs t = Inr s'"
    by (auto split: sum.splits)
  from Cons.prems(2) t have "obs t = obs s" by simp
  moreover from Cons.prems(2) have "obs s' = obs t" by (intro Cons.IH [OF rest]) simp
  ultimately show ?case by simp
qed

lemma foldE_established:
  assumes "foldE f xs s = Inr s'"
    and "P s \<or> x0 \<in> set xs"
    and "\<forall>t t'. f x0 t = Inr t' \<longrightarrow> P t'"
    and "\<forall>x \<in> set xs. x \<noteq> x0 \<longrightarrow> (\<forall>t t'. f x t = Inr t' \<longrightarrow> P t \<longrightarrow> P t')"
  shows "P s'"
  using assms(1,2,4)
proof (induction xs arbitrary: s)
  case Nil
  then show ?case by simp
next
  case (Cons x xs)
  from Cons.prems(1) obtain t where t: "f x s = Inr t" and rest: "foldE f xs t = Inr s'"
    by (auto split: sum.splits)
  have "P t \<or> x0 \<in> set xs"
  proof (cases "x = x0")
    case True
    with t assms(3) show ?thesis by blast
  next
    case False
    with Cons.prems(2) have "P s \<or> x0 \<in> set xs" by auto
    with Cons.prems(3) t False show ?thesis by auto
  qed
  moreover from Cons.prems(3)
  have "\<forall>x \<in> set xs. x \<noteq> x0 \<longrightarrow> (\<forall>t t'. f x t = Inr t' \<longrightarrow> P t \<longrightarrow> P t')" by simp
  ultimately show ?case by (rule Cons.IH [OF rest])
qed

subsection \<open>One step of a delta's loop\<close>

lemma write_null_is_null:
  assumes "write_null cb q b = Inr cb'"
  shows "cb_data cb' = cb_data cb \<and> is_null cb' p = (if p = q then Inr b else is_null cb p)"
  using assms
  by (auto simp: write_null_def is_null_def present_def set_bool_def as_bool_def
      split: sum.splits option.splits if_splits)

lemma write_data_reads:
  assumes "write_data esize cb q data i = Inr cb'"
  shows "\<exists>v. as_get esize data i = Inr v"
  using assms by (auto simp: write_data_def split: sum.splits)

lemma write_data_is_null:
  assumes "write_data esize cb q data i = Inr cb'"
  shows "is_null cb' p = is_null cb p"
  using write_data_effect [OF assms] by (simp add: is_null_def)

lemma patch_plain_row:
  assumes "patch_plain tp delta i cb = Inr cb'"
  shows "is_null cb' p = is_null cb p \<and>
         (\<exists>v. as_get (sizeof_ST tp) (delta_data delta) i = Inr v \<and>
              as_get (sizeof_ST tp) (cb_data cb') p =
                (if p = unat (index_data (delta_index delta) ! i) then Inr v
                 else as_get (sizeof_ST tp) (cb_data cb) p))"
proof -
  from assms have w: "write_data (sizeof_ST tp) cb (unat (index_data (delta_index delta) ! i))
      (delta_data delta) i = Inr cb'"
    by (simp add: patch_plain_def)
  from write_data_reads [OF w] write_data_effect [OF w, of p] write_data_is_null [OF w, of p]
  show ?thesis by auto
qed

lemma patch_no_nulls_row:
  assumes "patch_no_nulls tp delta i cb = Inr cb'"
  shows "is_null cb' p =
           (if p = unat (index_data (delta_index delta) ! i) then Inr True else is_null cb p) \<and>
         (\<exists>v. as_get (sizeof_ST tp) (delta_data delta) i = Inr v \<and>
              as_get (sizeof_ST tp) (cb_data cb') p =
                (if p = unat (index_data (delta_index delta) ! i) then Inr v
                 else as_get (sizeof_ST tp) (cb_data cb) p))"
proof -
  from assms obtain c where
    n: "write_null cb (unat (index_data (delta_index delta) ! i)) True = Inr c"
    and d: "write_data (sizeof_ST tp) c (unat (index_data (delta_index delta) ! i))
        (delta_data delta) i = Inr cb'"
    by (auto simp: patch_no_nulls_def Let_def split: sum.splits)
  from write_null_is_null [OF n, of p] write_data_reads [OF d] write_data_effect [OF d, of p]
    write_data_is_null [OF d, of p]
  show ?thesis by auto
qed

lemma patch_nullable_row:
  assumes "patch_nullable tp delta i cb = Inr cb'"
  shows "\<exists>isnull. as_bool (delta_nulls delta) i = Inr isnull \<and>
           is_null cb' p =
             (if p = unat (index_data (delta_index delta) ! i) then Inr isnull
              else is_null cb p) \<and>
           (if p = unat (index_data (delta_index delta) ! i) \<and> \<not> isnull
            then \<exists>v. as_get (sizeof_ST tp) (delta_data delta) i = Inr v \<and>
                     as_get (sizeof_ST tp) (cb_data cb') p = Inr v
            else as_get (sizeof_ST tp) (cb_data cb') p = as_get (sizeof_ST tp) (cb_data cb) p)"
proof -
  from assms obtain isnull where f: "as_bool (delta_nulls delta) i = Inr isnull"
    by (auto simp: patch_nullable_def Let_def split: sum.splits)
  show ?thesis
  proof (cases isnull)
    case True
    with assms f have "write_null cb (unat (index_data (delta_index delta) ! i)) True = Inr cb'"
      by (simp add: patch_nullable_def Let_def)
    from write_null_is_null [OF this, of p] f True show ?thesis
      by (intro exI [of _ True]) simp
  next
    case False
    with assms f obtain c where
      n: "write_null cb (unat (index_data (delta_index delta) ! i)) False = Inr c"
      and d: "write_data (sizeof_ST tp) c (unat (index_data (delta_index delta) ! i))
          (delta_data delta) i = Inr cb'"
      by (auto simp: patch_nullable_def Let_def split: sum.splits)
    from write_null_is_null [OF n, of p] write_data_reads [OF d] write_data_effect [OF d, of p]
      write_data_is_null [OF d, of p] f False
    show ?thesis by (intro exI [of _ False]) auto
  qed
qed

lemma patch_plain_patched_by:
  assumes "patch_plain tp delta i t = Inr t'" and "\<not> Nullable tp"
    and "unat (index_data (delta_index delta) ! i) = p"
  shows "patched_by tp delta i t' p"
proof -
  from patch_plain_row [OF assms(1), of p] assms(3)
  obtain v where "as_get (sizeof_ST tp) (delta_data delta) i = Inr v"
    "as_get (sizeof_ST tp) (cb_data t') p = Inr v"
    by auto
  with assms(2) show ?thesis by (simp add: patched_by_def holds_value_def)
qed

lemma patch_no_nulls_patched_by:
  assumes "patch_no_nulls tp delta i t = Inr t'" and "\<not> present (delta_nulls delta)"
    and "unat (index_data (delta_index delta) ! i) = p"
  shows "patched_by tp delta i t' p"
proof -
  from patch_no_nulls_row [OF assms(1), of p] assms(3)
  obtain v where "is_null t' p = Inr True"
    and "as_get (sizeof_ST tp) (delta_data delta) i = Inr v"
    and "as_get (sizeof_ST tp) (cb_data t') p = Inr v"
    by auto
  with assms(2) show ?thesis by (simp add: patched_by_def holds_value_def)
qed

lemma patch_nullable_patched_by:
  assumes "patch_nullable tp delta i t = Inr t'" and "Nullable tp"
    and "present (delta_nulls delta)"
    and "unat (index_data (delta_index delta) ! i) = p"
  shows "patched_by tp delta i t' p"
proof -
  from patch_nullable_row [OF assms(1), of p] assms(4)
  obtain isnull where n: "as_bool (delta_nulls delta) i = Inr isnull"
    and f: "is_null t' p = Inr isnull"
    and v: "\<not> isnull \<longrightarrow> (\<exists>v. as_get (sizeof_ST tp) (delta_data delta) i = Inr v \<and>
                     as_get (sizeof_ST tp) (cb_data t') p = Inr v)"
    by (auto split: if_splits)
  from v have "\<not> isnull \<longrightarrow> holds_value tp delta i t' p"
    by (auto simp: holds_value_def)
  with n f assms(2,3) show ?thesis by (simp add: patched_by_def)
qed

subsection \<open>One delta\<close>

lemma index_data_nth:
  "i < length (entries ix) \<Longrightarrow> unat (index_data ix ! i) = unat (entries ix ! i) mod 65536"
  by (simp add: index_data_def unat_low_half)

lemma range_offset_differs:
  assumes range: "block_range ix block = (start, end')"
    and i: "start \<le> i" "i < end'"
    and blk: "unat (drop_bit 16 rid) = block"
    and ne: "entries ix ! i \<noteq> rid"
  shows "unat (index_data ix ! i) \<noteq> unat (rid AND 0xffff)"
proof
  assume eq: "unat (index_data ix ! i) = unat (rid AND 0xffff)"
  from block_range_inside [OF range] i
  have len: "i < length (entries ix)" and b: "unat (drop_bit 16 (entries ix ! i)) = block"
    by auto
  from len eq have "unat (ucast (entries ix ! i) :: 16 word) = unat (rid AND 0xffff)"
    by (simp add: index_data_def)
  with b blk have "entries ix ! i = rid" by (intro rid_eqI) simp_all
  with ne show False ..
qed

lemma apply_delta_cases:
  assumes "apply_delta tp block delta cb = Inr cb'"
    and "block_range (delta_index delta) block = (start, end')"
  shows "\<exists>step. step \<in> {patch_nullable tp delta, patch_no_nulls tp delta, patch_plain tp delta} \<and>
           foldE step [start..<end'] cb = Inr cb'"
proof (cases "end' = start")
  case True
  with assms have "foldE (patch_plain tp delta) [start..<end'] cb = Inr cb'"
    by (simp add: apply_delta_def)
  then show ?thesis by blast
next
  case False
  with assms show ?thesis by (auto simp: apply_delta_def split: if_splits)
qed

lemma step_other_row:
  assumes "step \<in> {patch_nullable tp delta, patch_no_nulls tp delta, patch_plain tp delta}"
    and "step i t = Inr t'"
    and "p \<noteq> unat (index_data (delta_index delta) ! i)"
  shows "as_get (sizeof_ST tp) (cb_data t') p = as_get (sizeof_ST tp) (cb_data t) p \<and>
         is_null t' p = is_null t p"
  using assms patch_nullable_row [of tp delta i t t' p] patch_no_nulls_row [of tp delta i t t' p]
    patch_plain_row [of tp delta i t t' p]
  by auto

lemma apply_delta_other_row:
  assumes app: "apply_delta tp block delta cb = Inr cb'"
    and miss: "find_idx (delta_index delta) rid = None"
    and blk: "unat (drop_bit 16 rid) = block"
  shows "as_get (sizeof_ST tp) (cb_data cb') (unat (rid AND 0xffff)) =
           as_get (sizeof_ST tp) (cb_data cb) (unat (rid AND 0xffff)) \<and>
         is_null cb' (unat (rid AND 0xffff)) = is_null cb (unat (rid AND 0xffff))"
proof -
  let ?p = "unat (rid AND 0xffff)"
  let ?obs = "\<lambda>c. (as_get (sizeof_ST tp) (cb_data c) ?p, is_null c ?p)"
  obtain start end' where range: "block_range (delta_index delta) block = (start, end')"
    by (cases "block_range (delta_index delta) block")
  from apply_delta_cases [OF app range] obtain step where
    step: "step \<in> {patch_nullable tp delta, patch_no_nulls tp delta, patch_plain tp delta}"
    and fold: "foldE step [start..<end'] cb = Inr cb'"
    by blast
  from miss have absent: "rid \<notin> set (entries (delta_index delta))"
    by (simp add: find_idx_def position_of_None)
  have "\<forall>i \<in> set [start..<end']. \<forall>t t'. step i t = Inr t' \<longrightarrow> ?obs t' = ?obs t"
  proof (intro ballI allI impI)
    fix i t t' assume i: "i \<in> set [start..<end']" and s: "step i t = Inr t'"
    from i block_range_inside [OF range] have "i < length (entries (delta_index delta))" by simp
    with absent have "entries (delta_index delta) ! i \<noteq> rid" by (metis nth_mem)
    with range i blk have "unat (index_data (delta_index delta) ! i) \<noteq> ?p"
      by (intro range_offset_differs [of "delta_index delta" block start end']) auto
    with step_other_row [OF step s, of ?p] show "?obs t' = ?obs t" by simp
  qed
  with fold have "?obs cb' = ?obs cb" by (rule foldE_invariant)
  then show ?thesis by simp
qed

lemma patched_by_cong:
  assumes "as_get (sizeof_ST tp) (cb_data c') p = as_get (sizeof_ST tp) (cb_data c) p"
    and "is_null c' p = is_null c p"
  shows "patched_by tp delta pos c' p = patched_by tp delta pos c p"
  using assms by (auto simp: patched_by_def holds_value_def split: sum.splits)

lemma sorted_entries_differ:
  assumes "index_sorted ix" and "i < length (entries ix)" and "j < length (entries ix)"
    and "i \<noteq> j"
  shows "entries ix ! i \<noteq> entries ix ! j"
proof -
  from assms(1) have "distinct (entries ix)"
    by (simp add: index_sorted_def strict_sorted_iff)
  with assms(2-4) show ?thesis by (simp add: nth_eq_iff_index_eq)
qed

lemma fold_patch_own_row:
  assumes fold: "foldE step [start..<end'] cb = Inr cb'"
    and step: "step \<in> {patch_nullable tp delta, patch_no_nulls tp delta, patch_plain tp delta}"
    and member: "start \<le> pos" "pos < end'"
    and own: "\<forall>t t'. step pos t = Inr t' \<longrightarrow> patched_by tp delta pos t' p"
    and others: "\<forall>i. start \<le> i \<and> i < end' \<and> i \<noteq> pos \<longrightarrow>
        p \<noteq> unat (index_data (delta_index delta) ! i)"
  shows "patched_by tp delta pos cb' p"
proof -
  let ?P = "\<lambda>c. patched_by tp delta pos c p"
  from member have start: "?P cb \<or> pos \<in> set [start..<end']" by simp
  have keep: "\<forall>i \<in> set [start..<end']. i \<noteq> pos \<longrightarrow>
      (\<forall>t t'. step i t = Inr t' \<longrightarrow> ?P t \<longrightarrow> ?P t')"
  proof (intro ballI allI impI)
    fix i t t' assume i: "i \<in> set [start..<end']" "i \<noteq> pos" and s: "step i t = Inr t'"
      and P: "?P t"
    from i others have "p \<noteq> unat (index_data (delta_index delta) ! i)" by simp
    from step_other_row [OF step s this] have "?P t' = ?P t" by (intro patched_by_cong) simp_all
    with P show "?P t'" by simp
  qed
  from fold start own keep show ?thesis by (rule foldE_established)
qed

lemma apply_delta_own_row:
  assumes app: "apply_delta tp block delta cb = Inr cb'"
    and hit: "find_idx (delta_index delta) rid = Some pos"
    and sorted: "index_sorted (delta_index delta)"
    and blk: "unat (drop_bit 16 rid) = block"
  shows "patched_by tp delta pos cb' (unat (rid AND 0xffff))"
proof -
  let ?ix = "delta_index delta"
  define p where "p = unat (rid AND 0xffff)"
  obtain start end' where range: "block_range ?ix block = (start, end')"
    by (cases "block_range ?ix block")
  from hit have pos: "pos < length (entries ?ix)" and at: "entries ?ix ! pos = rid"
    by (simp_all add: find_idx_def position_of_Some)
  from at blk have "unat (drop_bit 16 (entries ?ix ! pos)) = block" by simp
  from block_range_covers [OF range sorted pos this]
  have inside: "start \<le> pos" "pos < end'" by simp_all
  then have nonempty: "end' \<noteq> start" by simp
  from pos have "unat (index_data ?ix ! pos) = unat (entries ?ix ! pos) mod 65536"
    by (rule index_data_nth)
  with at have offset: "unat (index_data ?ix ! pos) = p"
    by (simp only: p_def unat_and_ffff)
  have others: "\<forall>i. start \<le> i \<and> i < end' \<and> i \<noteq> pos \<longrightarrow> p \<noteq> unat (index_data ?ix ! i)"
  proof (intro allI impI)
    fix i assume i: "start \<le> i \<and> i < end' \<and> i \<noteq> pos"
    with block_range_inside [OF range] have "i < length (entries ?ix)" by simp
    from sorted_entries_differ [OF sorted this pos] i at have "entries ?ix ! i \<noteq> rid" by simp
    with range i blk have "unat (index_data ?ix ! i) \<noteq> unat (rid AND 0xffff)"
      by (intro range_offset_differs [of ?ix block start end']) simp_all
    then show "p \<noteq> unat (index_data ?ix ! i)" by (simp only: p_def not_sym)
  qed
  have own: "\<forall>t t'. f pos t = Inr t' \<longrightarrow> patched_by tp delta pos t' p"
    if "foldE f [start..<end'] cb = Inr cb'"
      and "f = (if Nullable tp then
        (if present (delta_nulls delta) then patch_nullable tp delta else patch_no_nulls tp delta)
      else patch_plain tp delta)" for f
    using that(2) offset
    by (auto intro: patch_plain_patched_by patch_no_nulls_patched_by patch_nullable_patched_by)
  from app range nonempty
  have fold': "foldE (if Nullable tp then
        (if present (delta_nulls delta) then patch_nullable tp delta else patch_no_nulls tp delta)
      else patch_plain tp delta) [start..<end'] cb = Inr cb'"
    by (auto simp: apply_delta_def split: if_splits)
  have step': "(if Nullable tp then
        (if present (delta_nulls delta) then patch_nullable tp delta else patch_no_nulls tp delta)
      else patch_plain tp delta) \<in>
      {patch_nullable tp delta, patch_no_nulls tp delta, patch_plain tp delta}"
    by simp
  from fold' step' inside own [OF fold' refl] others
  have "patched_by tp delta pos cb' p" by (rule fold_patch_own_row)
  then show ?thesis by (simp only: p_def)
qed

subsection \<open>The deltas in chronological order\<close>

lemma apply_deltas_keep_row:
  assumes "foldE (apply_delta tp block) ds cb = Inr cb'"
    and "list_all (\<lambda>d. find_idx (delta_index d) rid = None) ds"
    and "unat (drop_bit 16 rid) = block"
  shows "as_get (sizeof_ST tp) (cb_data cb') (unat (rid AND 0xffff)) =
           as_get (sizeof_ST tp) (cb_data cb) (unat (rid AND 0xffff)) \<and>
         is_null cb' (unat (rid AND 0xffff)) = is_null cb (unat (rid AND 0xffff))"
proof -
  let ?p = "unat (rid AND 0xffff)"
  let ?obs = "\<lambda>c. (as_get (sizeof_ST tp) (cb_data c) ?p, is_null c ?p)"
  have "\<forall>d \<in> set ds. \<forall>t t'. apply_delta tp block d t = Inr t' \<longrightarrow> ?obs t' = ?obs t"
    using assms(2,3) apply_delta_other_row [of tp block _ _ _ rid]
    by (auto simp: list_all_iff)
  with assms(1) have "?obs cb' = ?obs cb" by (rule foldE_invariant)
  then show ?thesis by simp
qed

lemma apply_deltas_newest:
  assumes fold: "foldE (apply_delta tp block) ds cb = Inr cb'"
    and newest: "newest_delta ds rid k pos"
    and sorted: "index_sorted (delta_index (ds ! k))"
    and blk: "unat (drop_bit 16 rid) = block"
  shows "patched_by tp (ds ! k) pos cb' (unat (rid AND 0xffff))"
proof -
  from newest have k: "k < length ds" and hit: "find_idx (delta_index (ds ! k)) rid = Some pos"
    and later: "list_all (\<lambda>d. find_idx (delta_index d) rid = None) (drop (Suc k) ds)"
    by (simp_all add: newest_delta_def)
  from id_take_nth_drop [OF k] have "take k ds @ ds ! k # drop (Suc k) ds = ds" by (rule sym)
  with fold have "foldE (apply_delta tp block) (take k ds @ ds ! k # drop (Suc k) ds) cb = Inr cb'"
    by (simp only:)
  then obtain c1 c2 where own: "apply_delta tp block (ds ! k) c1 = Inr c2"
    and rest: "foldE (apply_delta tp block) (drop (Suc k) ds) c2 = Inr cb'"
    by (auto simp: foldE_append split: sum.splits)
  from apply_delta_own_row [OF own hit sorted blk]
  have "patched_by tp (ds ! k) pos c2 (unat (rid AND 0xffff))" .
  moreover from apply_deltas_keep_row [OF rest later blk]
  have "patched_by tp (ds ! k) pos cb' (unat (rid AND 0xffff)) =
      patched_by tp (ds ! k) pos c2 (unat (rid AND 0xffff))"
    by (intro patched_by_cong) simp_all
  ultimately show ?thesis by simp
qed

lemma newest_delta_contains_block:
  assumes newest: "newest_delta ds rid k pos"
    and sorted: "index_sorted (delta_index (ds ! k))"
    and blk: "unat (drop_bit 16 rid) = block"
  shows "\<not> scan_base_only ds block"
proof -
  let ?ix = "delta_index (ds ! k)"
  from newest have k: "k < length ds" and hit: "find_idx ?ix rid = Some pos"
    by (simp_all add: newest_delta_def)
  obtain start end' where range: "block_range ?ix block = (start, end')"
    by (cases "block_range ?ix block")
  from hit have pos: "pos < length (entries ?ix)" and at: "entries ?ix ! pos = rid"
    by (simp_all add: find_idx_def position_of_Some)
  from block_range_covers [OF range sorted pos] at blk have "start \<noteq> end'" by simp
  with range have "contains_block (ds ! k) block" by (simp add: contains_block_def)
  with k show ?thesis by (auto simp: scan_base_only_iff)
qed

lemma get_block_patched:
  assumes ret: "get_block tp obtainable reader nrows block h cbh = Inr (OK, h', cbh')"
    and patched: "\<not> scan_base_only (r_deltas reader) block"
  shows "\<exists>a cb1 cb2. holder_cb cbh' = Some a \<and> deref h' a = Inr cb2 \<and>
           foldE (apply_delta tp block) (r_deltas reader) cb1 = Inr cb2"
proof -
  from ret patched obtain h1 a where a: "holder_cb cbh' = Some a"
    and patch: "patch_block tp reader nrows block (r_base reader ! block) h1 a = Inr (OK, h')"
    by (auto simp: get_block_def Let_def split: if_splits sum.splits prod.splits option.splits)
  from patch obtain cb1 cb2 where valid: "a < length h1"
    and fold: "foldE (apply_delta tp block) (r_deltas reader) cb1 = Inr cb2"
    and h': "h' = h1[a := Some cb2]"
    by (auto simp: patch_block_def deref_def split: sum.splits prod.splits if_splits option.splits)
  from valid h' have "deref h' a = Inr cb2" by (simp add: deref_def)
  with a fold show ?thesis by blast
qed

text \<open>
  The deltas are applied oldest first, and each overwrites only the rows of its
  block-range. So when several deltas set the same row, the block that a successful call
  leaves in the holder is, at that row, as the most recent of them patched it, whatever
  the older ones wrote.
\<close>

lemma get_block_newest_delta_wins:
  assumes ret: "get_block tp obtainable reader nrows block h cbh = Inr (OK, h', cbh')"
    and newest: "newest_delta (r_deltas reader) rid k pos"
    and sorted: "index_sorted (delta_index (r_deltas reader ! k))"
    and blk: "unat (drop_bit 16 rid) = block"
  shows "\<exists>a cb. holder_cb cbh' = Some a \<and> deref h' a = Inr cb \<and>
           patched_by tp (r_deltas reader ! k) pos cb (unat (rid AND 0xffff))"
proof -
  from get_block_patched [OF ret newest_delta_contains_block [OF newest sorted blk]]
  obtain a cb1 cb where "holder_cb cbh' = Some a" and "deref h' a = Inr cb"
    and fold: "foldE (apply_delta tp block) (r_deltas reader) cb1 = Inr cb"
    by blast
  moreover from apply_deltas_newest [OF fold newest sorted blk]
  have "patched_by tp (r_deltas reader ! k) pos cb (unat (rid AND 0xffff))" .
  ultimately show ?thesis by blast
qed

text \<open>
  On a column that is not nullable the order decides the row: with delta A before delta
  C row 1 is 26, with delta C before delta A it is 25.
\<close>

lemma get_block_order_example:
  "get_block int32_column (\<lambda>n. True) reader_A_then_C 4 0 [Some base_block] empty_holder =
     Inr (OK, [Some base_block, Some (block_with_row1 26)],
          \<lparr>holder_cb = Some 1, holder_own = True\<rparr>) \<and>
   get_block int32_column (\<lambda>n. True) reader_C_then_A 4 0 [Some base_block] empty_holder =
     Inr (OK, [Some base_block, Some (block_with_row1 25)],
          \<lparr>holder_cb = Some 1, holder_own = True\<rparr>)"
  by code_simp

text \<open>
  C4. On a nullable column, delta C (the lower version) sets row 1 to 26, not null, and
  delta A (the higher version) sets row 1 to 25 and has no null buffer. The claim says
  that the materialized row reflects delta A only: the value 25, as \<^verbatim>\<open>get\<close> returns
  it. The deltas are applied oldest first and the bytes of the row are those of delta A,
  but the branch for a delta without null buffer leaves the null flag of the row set
  (\<^verbatim>\<open>cb.nulls().as<bool>()[pos] = true\<close>), so the row of the block is null, which
  neither delta says.
\<close>

theorem get_block_newest_value_reads_null:
  "delta_is_null delta_C 0 = Inr False \<and>
   delta_is_null delta_A 0 = Inr False \<and>
   TypedColumnGet int32_nullable_column [Some base_block] reader_C_then_A 1 =
     Inr (Delta_data 1 0) \<and>
   load [Some base_block] reader_C_then_A (Delta_data 1 0) 4 = Inr [25, 0, 0, 0] \<and>
   get_block int32_nullable_column (\<lambda>n. True) reader_C_then_A 4 0 [Some base_block]
     empty_holder =
     Inr (OK, [Some base_block, Some patched_v1], \<lparr>holder_cb = Some 1, holder_own = True\<rparr>) \<and>
   is_null patched_v1 1 = Inr True \<and>
   as_get 4 (cb_data patched_v1) 1 = Inr [25, 0, 0, 0]"
  by code_simp

subsection \<open>The two access paths on a row that a delta sets\<close>

text \<open>
  On a row whose most recent delta has a null buffer, or on a column that is not
  nullable, the block that \<^verbatim>\<open>get_block\<close> materializes agrees with \<^verbatim>\<open>get\<close>: the row
  is null in the block iff \<^verbatim>\<open>get\<close> returns the null pointer, and otherwise the row
  holds the value that \<^verbatim>\<open>get\<close> points at. The branch of \<^verbatim>\<open>get_block\<close> for a
  delta without null buffer on a nullable column is the one that this excludes.
\<close>

lemma get_matches_get_block_on_delta_rows:
  assumes ret: "get_block tp obtainable reader nrows block h cbh = Inr (OK, h', cbh')"
    and newest: "newest_delta (r_deltas reader) rid k pos"
    and sorted: "index_sorted (delta_index (r_deltas reader ! k))"
    and blk: "unat (drop_bit 16 rid) = block"
    and flags: "Nullable tp \<longrightarrow> present (delta_nulls (r_deltas reader ! k))"
  shows "\<exists>a cb. holder_cb cbh' = Some a \<and> deref h' a = Inr cb \<and>
           (if Nullable tp \<and> TypedColumnGet tp h reader rid = Inr Nullptr
            then is_null cb (unat (rid AND 0xffff)) = Inr True
            else (Nullable tp \<longrightarrow> is_null cb (unat (rid AND 0xffff)) = Inr False) \<and>
              (\<exists>p v. TypedColumnGet tp h reader rid = Inr p \<and>
                     load h reader p (sizeof_ST tp) = Inr v \<and>
                     as_get (sizeof_ST tp) (cb_data cb) (unat (rid AND 0xffff)) = Inr v))"
proof -
  let ?d = "r_deltas reader ! k"
  let ?idx = "unat (rid AND 0xffff)"
  from get_block_patched [OF ret newest_delta_contains_block [OF newest sorted blk]]
  obtain a cb1 cb where a: "holder_cb cbh' = Some a" and cb: "deref h' a = Inr cb"
    and fold: "foldE (apply_delta tp block) (r_deltas reader) cb1 = Inr cb"
    by blast
  from apply_deltas_newest [OF fold newest sorted blk]
  have r: "patched_by tp ?d pos cb ?idx" .
  from newest have k: "k < length (r_deltas reader)" by (simp add: newest_delta_def)
  have ld: "load h reader (Delta_data k (pos * sizeof_ST tp)) (sizeof_ST tp) =
      as_get (sizeof_ST tp) (delta_data ?d) pos"
    using k by (simp add: load_def as_get_bytes_at)
  have "if Nullable tp \<and> TypedColumnGet tp h reader rid = Inr Nullptr
            then is_null cb ?idx = Inr True
            else (Nullable tp \<longrightarrow> is_null cb ?idx = Inr False) \<and>
              (\<exists>p v. TypedColumnGet tp h reader rid = Inr p \<and>
                     load h reader p (sizeof_ST tp) = Inr v \<and>
                     as_get (sizeof_ST tp) (cb_data cb) ?idx = Inr v)"
  proof (cases "Nullable tp")
    case False
    with r obtain v where "as_get (sizeof_ST tp) (delta_data ?d) pos = Inr v"
      "as_get (sizeof_ST tp) (cb_data cb) ?idx = Inr v"
      by (auto simp: patched_by_def holds_value_def split: sum.splits)
    with False ld get_newest [OF newest, of tp h] show ?thesis by simp
  next
    case True
    with flags have p: "present (delta_nulls ?d)" by simp
    with True r obtain isnull where n: "as_bool (delta_nulls ?d) pos = Inr isnull"
      and f: "is_null cb ?idx = Inr isnull"
      and v: "\<not> isnull \<longrightarrow> holds_value tp ?d pos cb ?idx"
      by (auto simp: patched_by_def split: sum.splits)
    from p n have dn: "delta_is_null ?d pos = Inr isnull" by (simp add: delta_is_null_def)
    show ?thesis
    proof (cases isnull)
      case True
      with dn f \<open>Nullable tp\<close> get_newest [OF newest, of tp h] show ?thesis by simp
    next
      case False
      with v obtain w where "as_get (sizeof_ST tp) (delta_data ?d) pos = Inr w"
        "as_get (sizeof_ST tp) (cb_data cb) ?idx = Inr w"
        by (auto simp: holds_value_def split: sum.splits)
      with False dn f \<open>Nullable tp\<close> ld get_newest [OF newest, of tp h] show ?thesis by simp
    qed
  qed
  with a cb show ?thesis by blast
qed

section \<open>Bulk materialization: the base blocks are not written\<close>

lemma patch_block_frame:
  assumes "patch_block tp reader nrows block page h a = Inr (st, h')"
  shows "length h' = length h \<and> (\<forall>a'. a' \<noteq> a \<longrightarrow> h' ! a' = h ! a')"
  using assms
  by (auto simp: patch_block_def split: sum.splits prod.splits if_splits)

lemma fresh_block_frame:
  assumes "fresh_block tp obtainable nrows h cbh = (h1, cbh1)"
  shows "holder_cb cbh1 = Some (length h) \<and> holder_own cbh1 \<and> length h1 = Suc (length h) \<and>
         (\<forall>a' < length h. (holder_own cbh \<and> holder_cb cbh = Some a') \<or> h1 ! a' = h ! a')"
  using assms
  by (auto simp: fresh_block_def release_def init_def nth_append split: option.splits if_splits)
    (metis nth_list_update_neq)

lemma needs_new_block_False:
  assumes "needs_new_block h cbh nrows = Inr False"
  shows "holder_own cbh \<and> (\<exists>a. holder_cb cbh = Some a)"
  using assms
  by (auto simp: needs_new_block_def split: if_splits option.splits sum.splits)

text \<open>
  A holder that owns no base block still owns none after the call: the condition of the
  next theorem is kept from one call to the next, starting with an empty holder.
\<close>

lemma get_block_keeps_holder_apart:
  assumes ret: "get_block tp obtainable reader nrows block h cbh = Inr (st, h', cbh')"
    and apart: "holder_own cbh \<longrightarrow> (\<forall>a. holder_cb cbh = Some a \<longrightarrow> a \<notin> set (r_base reader))"
    and valid: "\<forall>a \<in> set (r_base reader). a < length h"
  shows "holder_own cbh' \<longrightarrow> (\<forall>a. holder_cb cbh' = Some a \<longrightarrow> a \<notin> set (r_base reader))"
proof (cases "scan_base_only (r_deltas reader) block")
  case True
  with ret show ?thesis
    by (auto simp: get_block_def Let_def init_def split: if_splits)
next
  case False
  from ret False obtain fresh h1 cbh1 a1 where
    need: "needs_new_block h cbh nrows = Inr fresh"
    and st1': "(if fresh then fresh_block tp obtainable nrows h cbh else (h, cbh)) = (h1, cbh1)"
    and a1: "holder_cb cbh1 = Some a1"
    and patch: "patch_block tp reader nrows block (r_base reader ! block) h1 a1 = Inr (st, h')"
    and same: "cbh' = cbh1"
    by (auto simp: get_block_def Let_def split: if_splits sum.splits prod.splits option.splits)
  from st1' same
  have st1: "(if fresh then fresh_block tp obtainable nrows h cbh else (h, cbh)) = (h1, cbh')"
    by simp
  show ?thesis
  proof (cases fresh)
    case True
    with st1 have "fresh_block tp obtainable nrows h cbh = (h1, cbh')" by simp
    from fresh_block_frame [OF this] have "holder_cb cbh' = Some (length h)" by simp
    with valid show ?thesis by auto
  next
    case False
    with st1 have "cbh' = cbh" by simp
    with apart show ?thesis by simp
  qed
qed

text \<open>
  C10. \<^verbatim>\<open>get_block\<close> does not change the base layer: when the holder that the caller
  passes in does not own one of the base blocks, every base block in the store is, after
  a call that returns, the object it was before, data buffer and null buffer included.
  All writes go to the block at the holder's address.
\<close>

theorem get_block_preserves_base:
  assumes ret: "get_block tp obtainable reader nrows block h cbh = Inr (st, h', cbh')"
    and apart: "holder_own cbh \<longrightarrow> (\<forall>a. holder_cb cbh = Some a \<longrightarrow> a \<notin> set (r_base reader))"
  shows "\<forall>a \<in> set (r_base reader). a < length h \<longrightarrow> a < length h' \<and> h' ! a = h ! a"
proof (cases "scan_base_only (r_deltas reader) block")
  case True
  with ret show ?thesis
    by (auto simp: get_block_def Let_def split: if_splits)
next
  case False
  from ret False obtain fresh h1 cbh1 a1 where
    need: "needs_new_block h cbh nrows = Inr fresh"
    and st1: "(if fresh then fresh_block tp obtainable nrows h cbh else (h, cbh)) = (h1, cbh1)"
    and a1: "holder_cb cbh1 = Some a1"
    and patch: "patch_block tp reader nrows block (r_base reader ! block) h1 a1 = Inr (st, h')"
    by (auto simp: get_block_def Let_def split: if_splits sum.splits prod.splits option.splits)
  note pf = patch_block_frame [OF patch]
  show ?thesis
  proof (cases fresh)
    case True
    with st1 have fb: "fresh_block tp obtainable nrows h cbh = (h1, cbh1)" by simp
    note ff = fresh_block_frame [OF fb]
    from ff a1 have "a1 = length h" by simp
    show ?thesis
    proof (intro ballI impI)
      fix a assume a: "a \<in> set (r_base reader)" "a < length h"
      with apart have "\<not> (holder_own cbh \<and> holder_cb cbh = Some a)" by auto
      with ff a have "h1 ! a = h ! a" by blast
      moreover from a \<open>a1 = length h\<close> have "a \<noteq> a1" by simp
      ultimately show "a < length h' \<and> h' ! a = h ! a"
        using pf ff a by simp
    qed
  next
    case False
    with st1 have same: "h1 = h" "cbh1 = cbh" by simp_all
    from need False have "holder_own cbh" using needs_new_block_False by simp
    with apart a1 same have "a1 \<notin> set (r_base reader)" by simp
    with pf same show ?thesis by auto
  qed
qed

theorem get_block_preserves_base_witness:
  "get_block int32_nullable_column (\<lambda>n. True) reader_v2 4 0
     [Some base_block, Some \<lparr>cb_size = 4, cb_nulls = Some [1, 1, 1, 1],
                              cb_data = Some (replicate 16 7)\<rparr>]
     \<lparr>holder_cb = Some 1, holder_own = True\<rparr> =
     Inr (OK, [Some base_block, Some patched_v2], \<lparr>holder_cb = Some 1, holder_own = True\<rparr>) \<and>
   [Some base_block, Some patched_v2] ! 0 = Some base_block"
proof -
  have ret: "get_block int32_nullable_column (\<lambda>n. True) reader_v2 4 0
     [Some base_block, Some \<lparr>cb_size = 4, cb_nulls = Some [1, 1, 1, 1],
                              cb_data = Some (replicate 16 7)\<rparr>]
     \<lparr>holder_cb = Some 1, holder_own = True\<rparr> =
     Inr (OK, [Some base_block, Some patched_v2], \<lparr>holder_cb = Some 1, holder_own = True\<rparr>)"
    by code_simp
  have apart: "holder_own \<lparr>holder_cb = Some 1, holder_own = True\<rparr> \<longrightarrow>
      (\<forall>a. holder_cb \<lparr>holder_cb = Some 1, holder_own = True\<rparr> = Some a \<longrightarrow>
           a \<notin> set (r_base reader_v2))"
    by (simp add: reader_v2_def)
  from get_block_preserves_base [OF ret apart]
  have "[Some base_block, Some patched_v2] ! 0 =
      [Some base_block, Some \<lparr>cb_size = 4, cb_nulls = Some [1, 1, 1, 1],
                              cb_data = Some (replicate 16 7)\<rparr>] ! 0"
    by (simp add: reader_v2_def)
  with ret show ?thesis by simp
qed

end
